theory Spec2Isabelle
  imports Complex_Main "HOL-Library.Sublist" "HOL-Library.Monad_Syntax"
begin

section \<open>Strings and JavaScript string primitives\<close>

text \<open>
  A JavaScript string is modelled as a \<open>char list\<close>; a one-character string such as the
  result of \<open>charAt\<close> is a list of length one, and the empty string \<open>""\<close> that \<open>charAt\<close>
  returns out of range is \<open>[]\<close>.  Only ASCII letters are case-mapped by \<open>toLowerCase\<close>.
\<close>

definition dq :: string where
  "dq = [CHR 0x22]"

definition nl :: string where
  "nl = [CHR 0x0A]"

definition cr :: string where
  "cr = [CHR 0x0D]"

definition tab :: string where
  "tab = [CHR 0x09]"

definition charAt :: "string \<Rightarrow> nat \<Rightarrow> string" where
  "charAt src i = (if i < length src then [src ! i] else [])"

definition slice :: "string \<Rightarrow> nat \<Rightarrow> nat \<Rightarrow> string" where
  "slice src a b = take (b - a) (drop a src)"

definition lowerChar :: "char \<Rightarrow> char" where
  "lowerChar c =
     (case map_of (zip ''ABCDEFGHIJKLMNOPQRSTUVWXYZ'' ''abcdefghijklmnopqrstuvwxyz'') c of
        Some d \<Rightarrow> d
      | None \<Rightarrow> c)"

definition toLowerCase :: "string \<Rightarrow> string" where
  "toLowerCase s = map lowerChar s"

definition digitChar :: "char \<Rightarrow> bool" where
  "digitChar c = (c \<in> set ''0123456789'')"

definition binaryChar :: "char \<Rightarrow> bool" where
  "binaryChar c = (c \<in> set ''01'')"

definition octalChar :: "char \<Rightarrow> bool" where
  "octalChar c = (c \<in> set ''01234567'')"

definition hexChar :: "char \<Rightarrow> bool" where
  "hexChar c = (c \<in> set ''0123456789abcdefABCDEF'')"

text \<open>\<open>/[0-9]/.test(character)\<close>: some character of the string is a decimal digit.\<close>

definition isDigit :: "string \<Rightarrow> bool" where
  "isDigit character = list_ex digitChar character"

definition isBinaryDigit :: "string \<Rightarrow> bool" where
  "isBinaryDigit character = (character = ''0'' \<or> character = ''1'')"

definition isOctalDigit :: "string \<Rightarrow> bool" where
  "isOctalDigit character = list_ex octalChar character"

definition isHexadecimalDigit :: "string \<Rightarrow> bool" where
  "isHexadecimalDigit character = list_ex hexChar character"

section \<open>Decoding numeric literals: \<open>Number(lexeme)\<close> and \<open>BigInt(lexeme)\<close>\<close>

text \<open>
  \<open>Number\<close> is modelled on the strings the tokenizer passes to it, which begin with a
  decimal digit: a radix literal \<open>0b\<close>/\<open>0o\<close>/\<open>0x\<close> with at least one digit of the radix,
  or a decimal literal with optional fraction and exponent; anything else is \<open>NaN\<close>.
  The value is the mathematical value of the literal: the rounding to a double, and with
  it the overflow to \<open>Infinity\<close>, is not modelled, so the payload of a literal that no
  double represents exactly (\<open>1.5e-3\<close>, \<open>9007199254740993\<close>, \<open>1e400\<close>) is not the one
  of the code.  The rounding is the identity on the integers below \<open>2^53\<close> and on NaN,
  and no statement below depends on the payload of any other literal.
\<close>

datatype jsNumber = NaN | Num rat

definition digitValue :: "char \<Rightarrow> nat" where
  "digitValue c =
     (case map_of (zip ''0123456789abcdefABCDEF''
             [0, 1, 2, 3, 4, 5, 6, 7, 8, 9, 10, 11, 12, 13, 14, 15, 10, 11, 12, 13, 14, 15]) c of
        Some d \<Rightarrow> d
      | None \<Rightarrow> 0)"

definition digitsValue :: "nat \<Rightarrow> string \<Rightarrow> nat" where
  "digitsValue radix ds = foldl (\<lambda>a c. a * radix + digitValue c) 0 ds"

definition radixLiteral :: "string \<Rightarrow> (nat \<times> string) option" where
  "radixLiteral s =
     (case s of
        z # m # ds \<Rightarrow>
          (if z \<noteq> CHR ''0'' then None
           else if lowerChar m = CHR ''b'' then Some (2, ds)
           else if lowerChar m = CHR ''o'' then Some (8, ds)
           else if lowerChar m = CHR ''x'' then Some (16, ds)
           else None)
      | _ \<Rightarrow> None)"

definition radixDigitsOk :: "nat \<Rightarrow> string \<Rightarrow> bool" where
  "radixDigitsOk radix ds =
     (ds \<noteq> [] \<and> list_all (\<lambda>c. hexChar c \<and> digitValue c < radix) ds)"

definition exponentPart :: "string \<Rightarrow> int option" where
  "exponentPart s =
     (case s of
        [] \<Rightarrow> Some 0
      | e # r \<Rightarrow>
          (if lowerChar e \<noteq> CHR ''e'' then None
           else (case r of
                   [] \<Rightarrow> None
                 | g # ds \<Rightarrow>
                     (if g = CHR ''-'' \<and> ds \<noteq> [] \<and> list_all digitChar ds
                        then Some (- int (digitsValue 10 ds))
                      else if g = CHR ''+'' \<and> ds \<noteq> [] \<and> list_all digitChar ds
                        then Some (int (digitsValue 10 ds))
                      else if list_all digitChar r then Some (int (digitsValue 10 r))
                      else None))))"

definition decimalLiteral :: "string \<Rightarrow> jsNumber" where
  "decimalLiteral s =
     (let ip = takeWhile digitChar s;
          r1 = dropWhile digitChar s;
          fp = (case r1 of [] \<Rightarrow> [] | c # r \<Rightarrow> if c = CHR ''.'' then takeWhile digitChar r else []);
          r2 = (case r1 of [] \<Rightarrow> [] | c # r \<Rightarrow> if c = CHR ''.'' then dropWhile digitChar r else r1)
      in if ip = [] \<and> fp = [] then NaN
         else (case exponentPart r2 of
                 None \<Rightarrow> NaN
               | Some e \<Rightarrow>
                   Num ((of_nat (digitsValue 10 ip)
                         + of_nat (digitsValue 10 fp) / 10 ^ length fp)
                        * (if 0 \<le> e then 10 ^ nat e else 1 / 10 ^ nat (- e)))))"

definition Number_js :: "string \<Rightarrow> jsNumber" where
  "Number_js s =
     (case radixLiteral s of
        Some (radix, ds) \<Rightarrow>
          (if radixDigitsOk radix ds then Num (of_nat (digitsValue radix ds)) else NaN)
      | None \<Rightarrow> decimalLiteral s)"

text \<open>\<open>BigInt(lexeme)\<close> raises a \<open>SyntaxError\<close> (here \<open>None\<close>) unless the string is
  empty or an integer literal, decimal or with a radix prefix.\<close>

definition BigInt_js :: "string \<Rightarrow> int option" where
  "BigInt_js s =
     (case radixLiteral s of
        Some (radix, ds) \<Rightarrow>
          (if radixDigitsOk radix ds then Some (int (digitsValue radix ds)) else None)
      | None \<Rightarrow> (if list_all digitChar s then Some (int (digitsValue 10 s)) else None))"

section \<open>Tokens (src/src/Token.ts)\<close>

datatype numberKind = decimal | exponential | binary | octal | hexadecimal

datatype TokenADT =
    leftParen | rightParen | leftBrace | rightBrace | comma | dot
  | minus_t | plus_t | semicolon | star | slash | eof
  | bangEqual | bang | equalEqual | equal | lessEqual | less_t
  | greaterEqual | greater_t
  | number_t jsNumber numberKind
  | string_t string

record 'k Token =
  adt :: 'k
  lexeme :: string
  line :: nat

section \<open>The tokenizer state and its primitives (src/src/Tokenizer.ts)\<close>

text \<open>
  The fields of the class; \<open>source\<close> is read-only and is passed as a parameter.  Messages
  written with \<open>console.error\<close> are collected, in order, in \<open>errors\<close>.  The primitives are
  the same in both versions of the class, which differ in the token kinds only, so the
  state is polymorphic in the kind.
\<close>

record 'k Tokenizer =
  tokens :: "'k Token list"
  start :: nat
  current :: nat
  this_line :: nat
  errors :: "string list"

definition init :: "'k Tokenizer" where
  "init = \<lparr>tokens = [], start = 0, current = 0, this_line = 0, errors = []\<rparr>"

definition console_error :: "string \<Rightarrow> 'k Tokenizer \<Rightarrow> 'k Tokenizer" where
  "console_error msg s = s\<lparr>errors := errors s @ [msg]\<rparr>"

definition reachedEOF :: "string \<Rightarrow> 'k Tokenizer \<Rightarrow> bool" where
  "reachedEOF src s = (int (current s) > int (length src) - 1)"

definition advance :: "string \<Rightarrow> nat \<Rightarrow> 'k Tokenizer \<Rightarrow> string \<times> 'k Tokenizer" where
  "advance src advanceBy s =
     (let s' = s\<lparr>current := current s + advanceBy\<rparr>
      in (if current s' = 0 then [] else charAt src (current s' - 1), s'))"

definition peek :: "string \<Rightarrow> 'k Tokenizer \<Rightarrow> string" where
  "peek src s = (if reachedEOF src s then [] else charAt src (current s))"

definition peekNext :: "string \<Rightarrow> nat \<Rightarrow> 'k Tokenizer \<Rightarrow> string" where
  "peekNext src peekBy s =
     (if current s + 1 \<ge> length src then [] else charAt src (current s + peekBy))"

definition match :: "string \<Rightarrow> string \<Rightarrow> 'k Tokenizer \<Rightarrow> bool \<times> 'k Tokenizer" where
  "match src expected s =
     (if reachedEOF src s then (False, s)
      else if charAt src (current s) \<noteq> expected then (False, s)
      else (True, s\<lparr>current := current s + 1\<rparr>))"

definition addToken :: "string \<Rightarrow> 'k \<Rightarrow> 'k Tokenizer \<Rightarrow> 'k Tokenizer" where
  "addToken src tokenMetadata s =
     s\<lparr>tokens := tokens s @
         [\<lparr>adt = tokenMetadata, lexeme = slice src (start s) (current s), line = this_line s\<rparr>]\<rparr>"

section \<open>The tokenizer of src/src/Tokenizer.ts\<close>

lemma reachedEOF_iff: "reachedEOF src s \<longleftrightarrow> length src \<le> current s"
  by (auto simp: reachedEOF_def)

lemma peek_Nil_iff: "peek src s = [] \<longleftrightarrow> length src \<le> current s"
  by (simp add: peek_def reachedEOF_iff charAt_def)

lemma isDigit_peek_bound: "isDigit (peek src s) \<Longrightarrow> current s < length src"
  by (cases "length src \<le> current s") (simp_all add: peek_def reachedEOF_iff isDigit_def)

lemma isBinaryDigit_peek_bound: "isBinaryDigit (peek src s) \<Longrightarrow> current s < length src"
  by (cases "length src \<le> current s") (simp_all add: peek_def reachedEOF_iff isBinaryDigit_def)

text \<open>\<open>while (this.isDigit(this.peek())) this.advance()\<close>\<close>

function digits :: "string \<Rightarrow> 'k Tokenizer \<Rightarrow> 'k Tokenizer" where
  "digits src s = (if isDigit (peek src s) then digits src (snd (advance src 1 s)) else s)"
  by pat_completeness auto
termination
  by (relation "measure (\<lambda>(src, s). length src - current s)")
     (auto simp: advance_def dest: isDigit_peek_bound)

declare digits.simps [simp del]

text \<open>\<open>while (this.isBinaryDigit(this.peek())) this.advance()\<close>\<close>

function binaryDigits :: "string \<Rightarrow> 'k Tokenizer \<Rightarrow> 'k Tokenizer" where
  "binaryDigits src s =
     (if isBinaryDigit (peek src s) then binaryDigits src (snd (advance src 1 s)) else s)"
  by pat_completeness auto
termination
  by (relation "measure (\<lambda>(src, s). length src - current s)")
     (auto simp: advance_def dest: isBinaryDigit_peek_bound)

declare binaryDigits.simps [simp del]

text \<open>The loop of a line comment:
  \<open>while (this.peek() !== "\n" && !this.reachedEOF()) this.advance()\<close>\<close>

function lineComment :: "string \<Rightarrow> 'k Tokenizer \<Rightarrow> 'k Tokenizer" where
  "lineComment src s =
     (if peek src s \<noteq> nl \<and> \<not> reachedEOF src s
      then lineComment src (snd (advance src 1 s)) else s)"
  by pat_completeness auto
termination
  by (relation "measure (\<lambda>(src, s). length src - current s)")
     (auto simp: advance_def reachedEOF_iff)

declare lineComment.simps [simp del]

text \<open>The loop of a string literal, which counts the line terminators it passes:
  \<open>while (this.peek() !== '"' && !this.reachedEOF()) { if (this.peek() === "\n") this.line++; this.advance() }\<close>\<close>

function stringBody :: "string \<Rightarrow> 'k Tokenizer \<Rightarrow> 'k Tokenizer" where
  "stringBody src s =
     (if peek src s \<noteq> dq \<and> \<not> reachedEOF src s
      then stringBody src
             (snd (advance src 1
                (if peek src s = nl then s\<lparr>this_line := this_line s + 1\<rparr> else s)))
      else s)"
  by pat_completeness auto
termination
  by (relation "measure (\<lambda>(src, s). length src - current s)")
     (auto simp: advance_def reachedEOF_iff)

declare stringBody.simps [simp del]

definition number :: "string \<Rightarrow> TokenADT Tokenizer \<Rightarrow> TokenADT Tokenizer" where
  "number src s0 =
     (let s1 = digits src s0;
          s2 = (if peek src s1 = ''.'' \<and> isDigit (peekNext src 1 s1)
                then digits src (snd (advance src 1 s1))
                else s1);
          s3 = (if toLowerCase (peek src s2) = ''e'' then
                  (if isDigit (peekNext src 1 s2) then digits src (snd (advance src 1 s2))
                   else if peekNext src 1 s2 = ''-'' \<and> isDigit (peekNext src 2 s2)
                     then digits src (snd (advance src 2 s2))
                   else s2)
                else s2);
          lexeme = slice src (start s3) (current s3);
          literal = Number_js lexeme;
          kind = (if CHR ''e'' \<in> set (toLowerCase lexeme) then exponential else decimal)
      in addToken src (number_t literal kind) s3)"

definition leadingZeroNumber :: "string \<Rightarrow> TokenADT Tokenizer \<Rightarrow> TokenADT Tokenizer" where
  "leadingZeroNumber src s =
     (if toLowerCase (peek src s) = ''b'' then
        (let s1 = (if isBinaryDigit (peekNext src 1 s)
                   then binaryDigits src (snd (advance src 1 s))
                   else console_error ''Binary digit expected'' s);
             lexeme = slice src (start s1) (current s1);
             literal = Number_js lexeme;
             kind = binary
         in addToken src (number_t literal kind) s1)
      else number src s)"

definition string :: "string \<Rightarrow> TokenADT Tokenizer \<Rightarrow> TokenADT Tokenizer" where
  "string src s =
     (let s1 = stringBody src s in
      if reachedEOF src s1 then console_error ''Unterminated string literal.'' s1
      else (let s2 = snd (advance src 1 s1);
                literal = slice src (start s2 + 1) (current s2 - 1)
            in addToken src (string_t literal) s2))"

text \<open>The characters that have a \<open>case\<close> label in the switch of \<open>scanToken\<close>.\<close>

definition recognised :: string where
  "recognised = ''(){},.-+;*/!=<> '' @ cr @ tab @ nl @ ''0123456789'' @ dq"

text \<open>The labels \<open>case "1": ... case "9":\<close> of the switch.\<close>

definition nonzeroDigits :: "string list" where
  "nonzeroDigits = map (\<lambda>c. [c]) ''123456789''"

text \<open>One-or-two-character operators: \<open>this.match("=") ? two : one\<close>.\<close>

definition matchEq :: "string \<Rightarrow> TokenADT \<Rightarrow> TokenADT \<Rightarrow> TokenADT Tokenizer \<Rightarrow> TokenADT Tokenizer" where
  "matchEq src two one s =
     (let (m, s') = match src ''='' s in addToken src (if m then two else one) s')"

definition scanToken :: "string \<Rightarrow> TokenADT Tokenizer \<Rightarrow> TokenADT Tokenizer" where
  "scanToken src s0 =
     (let (character, s) = advance src 1 s0 in
      if character = ''('' then addToken src leftParen s
      else if character = '')'' then addToken src rightParen s
      else if character = ''{'' then addToken src leftBrace s
      else if character = ''}'' then addToken src rightBrace s
      else if character = '','' then addToken src comma s
      else if character = ''.'' then addToken src dot s
      else if character = ''-'' then
        (let (m, s') = match src ''-'' s in
         if m then lineComment src s' else addToken src minus_t s')
      else if character = ''+'' then addToken src plus_t s
      else if character = '';'' then addToken src semicolon s
      else if character = ''*'' then addToken src star s
      else if character = ''/'' then addToken src slash s
      else if character = ''!'' then matchEq src bangEqual bang s
      else if character = ''='' then matchEq src equalEqual equal s
      else if character = ''<'' then matchEq src lessEqual less_t s
      else if character = ''>'' then matchEq src greaterEqual greater_t s
      else if character = '' '' \<or> character = cr \<or> character = tab then s
      else if character = nl then s\<lparr>this_line := this_line s + 1\<rparr>
      else if character = ''0'' then leadingZeroNumber src s
      else if character \<in> set nonzeroDigits
        then number src s
      else if character = dq then string src s
      else console_error (''Unexpected character: '' @ dq @ character @ dq) s)"

subsection \<open>The loops in closed form\<close>

lemma charAt_take_drop: "charAt src i = take 1 (drop i src)"
  by (cases "i < length src") (simp_all add: charAt_def take_Suc_conv_app_nth flip: Cons_nth_drop_Suc)

lemma peek_take_drop: "peek src s = take 1 (drop (current s) src)"
  by (simp add: peek_def reachedEOF_iff charAt_take_drop)

lemma drop_Suc_of_Cons: "drop n xs = c # r \<Longrightarrow> drop (Suc n) xs = r"
  by (metis drop_Suc list.sel(3) tl_drop)

lemma digits_eq:
  "digits src s = s\<lparr>current := current s + length (takeWhile digitChar (drop (current s) src))\<rparr>"
proof (induction src s rule: digits.induct)
  case (1 src s)
  show ?case
  proof (cases "drop (current s) src")
    case Nil
    then show ?thesis
      by (subst digits.simps) (simp add: peek_take_drop isDigit_def)
  next
    case (Cons c r)
    note r = drop_Suc_of_Cons [OF Cons]
    show ?thesis
    proof (cases "digitChar c")
      case True
      then have "isDigit (peek src s)" using Cons by (simp add: peek_take_drop isDigit_def)
      with 1 True Cons r show ?thesis
        by (subst digits.simps) (simp add: advance_def)
    next
      case False
      with Cons show ?thesis
        by (subst digits.simps) (simp add: peek_take_drop isDigit_def)
    qed
  qed
qed

lemma binaryDigits_eq:
  "binaryDigits src s =
     s\<lparr>current := current s + length (takeWhile binaryChar (drop (current s) src))\<rparr>"
proof (induction src s rule: binaryDigits.induct)
  case (1 src s)
  show ?case
  proof (cases "drop (current s) src")
    case Nil
    then show ?thesis
      by (subst binaryDigits.simps) (simp add: peek_take_drop isBinaryDigit_def)
  next
    case (Cons c r)
    note r = drop_Suc_of_Cons [OF Cons]
    show ?thesis
    proof (cases "binaryChar c")
      case True
      then have "isBinaryDigit (peek src s)"
        using Cons by (auto simp: peek_take_drop isBinaryDigit_def binaryChar_def)
      with 1 True Cons r show ?thesis
        by (subst binaryDigits.simps) (simp add: advance_def)
    next
      case False
      with Cons show ?thesis
        by (subst binaryDigits.simps) (auto simp: peek_take_drop isBinaryDigit_def binaryChar_def)
    qed
  qed
qed

lemma lineComment_eq:
  "lineComment src s =
     s\<lparr>current := current s + length (takeWhile (\<lambda>c. c \<noteq> CHR 0x0A) (drop (current s) src))\<rparr>"
proof (induction src s rule: lineComment.induct)
  case (1 src s)
  show ?case
  proof (cases "drop (current s) src")
    case Nil
    then show ?thesis
      by (subst lineComment.simps) (simp add: reachedEOF_iff)
  next
    case (Cons c r)
    note r = drop_Suc_of_Cons [OF Cons]
    have lt: "current s < length src" using Cons by (cases "current s < length src") simp_all
    show ?thesis
    proof (cases "c = CHR 0x0A")
      case False
      then have "peek src s \<noteq> nl \<and> \<not> reachedEOF src s"
        using Cons lt by (simp add: peek_take_drop reachedEOF_iff nl_def)
      with 1 False Cons r show ?thesis
        by (subst lineComment.simps) (simp add: advance_def)
    next
      case True
      with Cons show ?thesis
        by (subst lineComment.simps) (simp add: peek_take_drop nl_def)
    qed
  qed
qed

text \<open>The number of line terminators in a text.\<close>

definition cnl :: "string \<Rightarrow> nat" where
  "cnl xs = length (filter (\<lambda>c. c = CHR 0x0A) xs)"

lemma stringBody_eq:
  "stringBody src s =
     s\<lparr>current := current s + length (takeWhile (\<lambda>c. c \<noteq> CHR 0x22) (drop (current s) src)),
       this_line := this_line s + cnl (takeWhile (\<lambda>c. c \<noteq> CHR 0x22) (drop (current s) src))\<rparr>"
proof (induction src s rule: stringBody.induct)
  case (1 src s)
  show ?case
  proof (cases "drop (current s) src")
    case Nil
    then show ?thesis
      by (subst stringBody.simps) (simp add: reachedEOF_iff cnl_def)
  next
    case (Cons c r)
    note r = drop_Suc_of_Cons [OF Cons]
    have lt: "current s < length src" using Cons by (cases "current s < length src") simp_all
    show ?thesis
    proof (cases "c = CHR 0x22")
      case False
      then have "peek src s \<noteq> dq \<and> \<not> reachedEOF src s"
        using Cons lt by (simp add: peek_take_drop reachedEOF_iff dq_def)
      with 1 False Cons r show ?thesis
        by (subst stringBody.simps) (simp add: advance_def peek_take_drop nl_def cnl_def)
    next
      case True
      with Cons show ?thesis
        by (subst stringBody.simps) (simp add: peek_take_drop dq_def cnl_def)
    qed
  qed
qed

lemmas loop_eqs = digits_eq binaryDigits_eq lineComment_eq stringBody_eq

lemma current_number: "current s \<le> current (number src s)"
  by (simp add: number_def Let_def addToken_def advance_def loop_eqs)

lemma current_leadingZeroNumber: "current s \<le> current (leadingZeroNumber src s)"
  by (simp add: leadingZeroNumber_def Let_def addToken_def advance_def loop_eqs console_error_def current_number)

lemma current_string: "current s \<le> current (string src s)"
  by (simp add: string_def Let_def addToken_def advance_def loop_eqs console_error_def)

lemma current_matchEq: "current s \<le> current (matchEq src a b s)"
  by (simp add: matchEq_def match_def addToken_def)

lemma scanToken_current_gt: "current s < current (scanToken src s)"
proof -
  let ?s = "snd (advance src 1 s)"
  have c: "current ?s = Suc (current s)" by (simp add: advance_def)
  have "current ?s \<le> current (scanToken src s)"
    using current_number [of ?s src] current_leadingZeroNumber [of ?s src]
      current_string [of ?s src] current_matchEq [of ?s src]
    by (simp add: scanToken_def split_beta Let_def addToken_def match_def loop_eqs console_error_def)
  with c show ?thesis by simp
qed

subsection \<open>The scan\<close>

text \<open>\<open>while (!this.reachedEOF()) { this.start = this.current; this.scanToken() }\<close>.
  Every call of \<open>scanToken\<close> moves \<open>current\<close> forward, which is why the loop ends.\<close>

function scanLoop :: "string \<Rightarrow> TokenADT Tokenizer \<Rightarrow> TokenADT Tokenizer" where
  "scanLoop src s =
     (if \<not> reachedEOF src s
      then scanLoop src (scanToken src (s\<lparr>start := current s\<rparr>))
      else s)"
  by pat_completeness auto
termination
proof (relation "measure (\<lambda>(src, s). length src - current s)")
  show "wf (measure (\<lambda>(src, s). length src - current s))" by simp
next
  fix src :: string and s :: "TokenADT Tokenizer"
  assume "\<not> reachedEOF src s"
  then have "current s < length src" by (simp add: reachedEOF_iff)
  moreover have "current s < current (scanToken src (s\<lparr>start := current s\<rparr>))"
    using scanToken_current_gt [of "s\<lparr>start := current s\<rparr>" src] by simp
  ultimately show "((src, scanToken src (s\<lparr>start := current s\<rparr>)), (src, s))
      \<in> measure (\<lambda>(src, s). length src - current s)"
    by simp
qed

declare scanLoop.simps [simp del]

text \<open>The state in which \<open>scanTokens\<close> returns: the loop, then the push of the
  end-of-input token.\<close>

definition run :: "string \<Rightarrow> TokenADT Tokenizer" where
  "run src =
     (let s = scanLoop src init
      in s\<lparr>tokens := tokens s @ [\<lparr>adt = eof, lexeme = [], line = this_line s\<rparr>]\<rparr>)"

definition scanTokens :: "string \<Rightarrow> TokenADT Token list" where
  "scanTokens src = tokens (run src)"

text \<open>What the scan has written with \<open>console.error\<close>.\<close>

definition diagnostics :: "string \<Rightarrow> string list" where
  "diagnostics src = errors (run src)"

section \<open>The other version of the tokenizer (second part of src/src/Token.ts)\<close>

text \<open>
  The file \<open>src/src/Token.ts\<close> carries, after the token type, a second version of the
  class \<open>Tokenizer\<close>, with coarse token kinds (\<open>bracket\<close>, \<open>operator\<close>, \<open>punctuation\<close>),
  block comments, octal and hexadecimal literals and the suffix \<open>n\<close>.  Its definitions
  carry the prefix \<open>c_\<close>.  Its primitives \<open>reachedEOF\<close>, \<open>advance\<close>, \<open>peek\<close>,
  \<open>peekNext\<close> and \<open>addToken\<close> are those of the first version.  A loop of this version may
  run forever, so its functions return an option, \<open>None\<close> when the call does not return;
  \<open>BigInt(lexeme)\<close> may throw, so a call that returns either returns normally or throws.
\<close>

datatype c_literal = NumberLit jsNumber | BigIntLit int

datatype c_TokenADT =
    bracket | operator | punctuation | c_eof
  | c_number_t c_literal numberKind bool
  | c_string_t string

datatype 'a outcome = Returns 'a | Throws string

definition c_match :: "string \<Rightarrow> string \<Rightarrow> bool \<Rightarrow> 'k Tokenizer \<Rightarrow> bool \<times> 'k Tokenizer" where
  "c_match src expected lowercase s =
     (if reachedEOF src s then (False, s)
      else (let character = charAt src (current s) in
            if \<not> lowercase \<and> character \<noteq> expected then (False, s)
            else if lowercase \<and> toLowerCase character \<noteq> expected then (False, s)
            else (True, s\<lparr>current := current s + 1\<rparr>)))"

text \<open>\<open>readWhile(predicate) { while (predicate(this.peek())) this.advance() }\<close>\<close>

partial_function (option) c_readWhile ::
    "string \<Rightarrow> (string \<Rightarrow> bool) \<Rightarrow> 'k Tokenizer \<Rightarrow> 'k Tokenizer option" where
  "c_readWhile src predicate s =
     (if predicate (peek src s) then c_readWhile src predicate (snd (advance src 1 s))
      else Some s)"

text \<open>The loop of a block comment:
  \<open>while (!this.match("-") || this.peek() !== "}") { this.advance() }\<close>;
  \<open>match\<close> consumes the \<open>-\<close> it finds, and \<open>peek\<close> is read only after a successful
  \<open>match\<close>.\<close>

partial_function (option) c_blockComment ::
    "string \<Rightarrow> 'k Tokenizer \<Rightarrow> 'k Tokenizer option" where
  "c_blockComment src s =
     (let (m, s1) = c_match src ''-'' False s in
      if \<not> m \<or> peek src s1 \<noteq> ''}'' then c_blockComment src (snd (advance src 1 s1))
      else Some s1)"

definition c_suffix :: "string \<Rightarrow> c_TokenADT Tokenizer \<Rightarrow> bool \<times> c_TokenADT Tokenizer" where
  "c_suffix src s =
     (let (bigInt, s1) = c_match src ''n'' False s
      in (bigInt, if bigInt then snd (advance src 1 s1) else s1))"

definition c_number :: "string \<Rightarrow> c_TokenADT Tokenizer \<Rightarrow> c_TokenADT Tokenizer outcome option" where
  "c_number src s0 =
     do {
       s1 \<leftarrow> c_readWhile src isDigit s0;
       let (m, s2) = c_match src ''.'' False s1;
       s3 \<leftarrow> (if m \<and> isDigit (peekNext src 1 s2)
              then c_readWhile src isDigit (snd (advance src 1 s2))
              else Some s2);
       let (e, s4) = c_match src ''e'' True s3;
       s5 \<leftarrow> (if e then
                (if isDigit (peekNext src 1 s4)
                   then c_readWhile src isDigit (snd (advance src 1 s4))
                 else if peekNext src 1 s4 = ''-'' \<and> isDigit (peekNext src 2 s4)
                   then c_readWhile src isDigit (snd (advance src 2 s4))
                 else Some s4)
              else Some s4);
       Some (let lexeme = slice src (start s5) (current s5);
                 (bigInt, s6) = c_suffix src s5
             in if bigInt then
                  (case BigInt_js lexeme of
                     None \<Rightarrow> Throws ''SyntaxError''
                   | Some literal \<Rightarrow>
                       Returns (addToken src (c_number_t (BigIntLit literal) decimal bigInt) s6))
                else
                  Returns (addToken src
                    (c_number_t (NumberLit (Number_js lexeme))
                       (if CHR ''e'' \<in> set (toLowerCase lexeme) then exponential else decimal)
                       bigInt) s6))
     }"

text \<open>The digits after a radix marker that \<open>match\<close> has consumed:
  \<open>if (isXDigit(this.peekNext())) { this.advance(); this.readWhile(isXDigit) } else console.error(...)\<close>\<close>

definition c_radixDigits ::
    "string \<Rightarrow> (string \<Rightarrow> bool) \<Rightarrow> string \<Rightarrow> 'k Tokenizer \<Rightarrow> 'k Tokenizer option" where
  "c_radixDigits src isRadixDigit msg s =
     (if isRadixDigit (peekNext src 1 s) then c_readWhile src isRadixDigit (snd (advance src 1 s))
      else Some (console_error msg s))"

definition c_radixKind :: "string \<Rightarrow> numberKind" where
  "c_radixKind lx =
     (let secondChar = charAt (toLowerCase lx) 1 in
      if secondChar = ''b'' then binary else if secondChar = ''o'' then octal else hexadecimal)"

text \<open>The end of \<open>leadingZeroNumber\<close>, common to its three radix branches: the lexeme, the
  suffix and the token.\<close>

definition c_radixToken :: "string \<Rightarrow> c_TokenADT Tokenizer \<Rightarrow> c_TokenADT Tokenizer outcome" where
  "c_radixToken src s1 =
     (let lexeme = slice src (start s1) (current s1);
          (bigInt, s2) = c_suffix src s1
      in if bigInt then
           (case BigInt_js lexeme of
              None \<Rightarrow> Throws ''SyntaxError''
            | Some literal \<Rightarrow>
                Returns (addToken src
                  (c_number_t (BigIntLit literal) (c_radixKind lexeme) bigInt) s2))
         else
           Returns (addToken src
             (c_number_t (NumberLit (Number_js lexeme)) (c_radixKind lexeme) bigInt) s2))"

definition c_leadingZeroNumber ::
    "string \<Rightarrow> c_TokenADT Tokenizer \<Rightarrow> c_TokenADT Tokenizer outcome option" where
  "c_leadingZeroNumber src s =
     (let (b, sb) = c_match src ''b'' True s in
      if b then
        map_option (c_radixToken src) (c_radixDigits src isBinaryDigit ''Binary digit expected'' sb)
      else
        (let (oc, so) = c_match src ''o'' True sb in
         if oc then
           map_option (c_radixToken src)
             (c_radixDigits src isOctalDigit ''Octal digit expected'' so)
         else
           (let (x, sx) = c_match src ''x'' True so in
            if x then
              map_option (c_radixToken src)
                (c_radixDigits src isHexadecimalDigit ''Hexadecimal digit expected'' sx)
            else c_number src sx)))"

definition c_string :: "string \<Rightarrow> c_TokenADT Tokenizer \<Rightarrow> c_TokenADT Tokenizer" where
  "c_string src s =
     (let s1 = stringBody src s in
      if reachedEOF src s1 then console_error ''Unterminated string literal.'' s1
      else (let s2 = snd (advance src 1 s1);
                literal = slice src (start s2 + 1) (current s2 - 1)
            in addToken src (c_string_t literal) s2))"

text \<open>The switch of this version falls through: an opening brace that starts no block
  comment is a bracket like a closing one, and a \<open>-\<close>, with or without a line comment
  after it, runs into the branch of \<open>=\<close> and adds an operator token.\<close>

definition c_scanToken ::
    "string \<Rightarrow> c_TokenADT Tokenizer \<Rightarrow> c_TokenADT Tokenizer outcome option" where
  "c_scanToken src s0 =
     (let (character, s) = advance src 1 s0 in
      if character = ''('' \<or> character = '')'' then Some (Returns (addToken src bracket s))
      else if character = ''{'' then
        (let (m, s') = c_match src ''-'' False s in
         if m then do { s'' \<leftarrow> c_blockComment src s'; Some (Returns (snd (advance src 1 s''))) }
         else Some (Returns (addToken src bracket s')))
      else if character = ''}'' then Some (Returns (addToken src bracket s))
      else if character = ''<'' \<or> character = ''>'' then
        (let (m, s') = c_match src ''='' False s in
         Some (Returns (addToken src (if m then operator else bracket) s')))
      else if character = '','' \<or> character = ''.'' \<or> character = '';''
        then Some (Returns (addToken src punctuation s))
      else if character = ''-'' then
        (let (m, s') = c_match src ''-'' False s in
         Some (Returns (addToken src operator (if m then lineComment src s' else s'))))
      else if character = ''+'' \<or> character = ''*'' \<or> character = ''/'' \<or> character = ''!''
              \<or> character = ''=''
        then Some (Returns (addToken src operator s))
      else if character = '' '' \<or> character = cr \<or> character = tab then Some (Returns s)
      else if character = nl then Some (Returns (s\<lparr>this_line := this_line s + 1\<rparr>))
      else if character = ''0'' then c_leadingZeroNumber src s
      else if character \<in> set nonzeroDigits then c_number src s
      else if character = dq then Some (Returns (c_string src s))
      else Some (Returns (console_error (''Unexpected character: '' @ dq @ character @ dq) s)))"

partial_function (option) c_scanLoop ::
    "string \<Rightarrow> c_TokenADT Tokenizer \<Rightarrow> c_TokenADT Tokenizer outcome option" where
  "c_scanLoop src s =
     (if \<not> reachedEOF src s then
        (case c_scanToken src (s\<lparr>start := current s\<rparr>) of
           None \<Rightarrow> None
         | Some (Throws e) \<Rightarrow> Some (Throws e)
         | Some (Returns s') \<Rightarrow> c_scanLoop src s')
      else Some (Returns s))"

declare c_readWhile.simps [code] c_blockComment.simps [code] c_scanLoop.simps [code]

text \<open>\<open>scanTokens\<close> of this version, with the state it ends in.\<close>

definition c_run :: "string \<Rightarrow> c_TokenADT Tokenizer outcome option" where
  "c_run src =
     (case c_scanLoop src init of
        None \<Rightarrow> None
      | Some (Throws e) \<Rightarrow> Some (Throws e)
      | Some (Returns s) \<Rightarrow>
          Some (Returns (s\<lparr>tokens := tokens s @ [\<lparr>adt = c_eof, lexeme = [], line = this_line s\<rparr>]\<rparr>)))"

definition c_scanTokens :: "string \<Rightarrow> c_TokenADT Token list outcome option" where
  "c_scanTokens src =
     (case c_run src of
        None \<Rightarrow> None
      | Some (Throws e) \<Rightarrow> Some (Throws e)
      | Some (Returns s) \<Rightarrow> Some (Returns (tokens s)))"

definition c_diagnostics :: "string \<Rightarrow> string list outcome option" where
  "c_diagnostics src =
     (case c_run src of
        None \<Rightarrow> None
      | Some (Throws e) \<Rightarrow> Some (Throws e)
      | Some (Returns s) \<Rightarrow> Some (Returns (errors s)))"

section \<open>Properties of one scan step\<close>

subsection \<open>What each operation leaves unchanged\<close>

lemma number_frame:
  "start (number src s) = start s" "this_line (number src s) = this_line s"
  "errors (number src s) = errors s"
  by (simp_all add: number_def Let_def addToken_def advance_def loop_eqs)

lemma number_tokens:
  "tokens (number src s) =
     tokens s @
     [\<lparr>adt = number_t (Number_js (slice src (start s) (current (number src s))))
              (if CHR ''e'' \<in> set (toLowerCase (slice src (start s) (current (number src s))))
               then exponential else decimal),
       lexeme = slice src (start s) (current (number src s)),
       line = this_line s\<rparr>]"
  by (simp add: number_def Let_def addToken_def advance_def loop_eqs)

lemma leadingZeroNumber_frame:
  "start (leadingZeroNumber src s) = start s"
  "this_line (leadingZeroNumber src s) = this_line s"
  by (simp_all add: leadingZeroNumber_def Let_def addToken_def advance_def loop_eqs
      console_error_def number_frame)

lemma leadingZeroNumber_tokens:
  "\<exists>k. tokens (leadingZeroNumber src s) =
     tokens s @
     [\<lparr>adt = number_t (Number_js (slice src (start s) (current (leadingZeroNumber src s)))) k,
       lexeme = slice src (start s) (current (leadingZeroNumber src s)),
       line = this_line s\<rparr>]"
  by (simp add: leadingZeroNumber_def Let_def addToken_def advance_def loop_eqs
      console_error_def number_frame number_tokens)

lemma leadingZeroNumber_errors:
  "\<exists>es. errors (leadingZeroNumber src s) = errors s @ es"
  by (simp add: leadingZeroNumber_def Let_def addToken_def advance_def loop_eqs
      console_error_def number_frame)

lemma string_frame: "start (string src s) = start s"
  by (simp add: string_def Let_def addToken_def advance_def loop_eqs console_error_def)

lemma string_cases:
  "(tokens (string src s) = tokens s \<and>
      errors (string src s) = errors s @ [''Unterminated string literal.''] \<and>
      length src \<le> current (string src s))
   \<or> (errors (string src s) = errors s \<and>
      tokens (string src s) =
        tokens s @
        [\<lparr>adt = string_t (slice src (start s + 1) (current (string src s) - 1)),
          lexeme = slice src (start s) (current (string src s)),
          line = this_line (string src s)\<rparr>])"
  by (simp add: string_def Let_def addToken_def advance_def loop_eqs console_error_def reachedEOF_iff)

lemma matchEq_frame:
  "start (matchEq src a b s) = start s" "this_line (matchEq src a b s) = this_line s"
  "errors (matchEq src a b s) = errors s"
  by (simp_all add: matchEq_def match_def addToken_def)

lemma matchEq_tokens:
  "tokens (matchEq src a b s) =
     tokens s @
     [\<lparr>adt = (if current (matchEq src a b s) = current s then b else a),
       lexeme = slice src (start s) (current (matchEq src a b s)), line = this_line s\<rparr>]"
  by (simp add: matchEq_def match_def addToken_def)

subsection \<open>The invariant of the scan\<close>

definition scanInv :: "string \<Rightarrow> 'k Tokenizer \<Rightarrow> bool" where
  "scanInv src s \<longleftrightarrow> current s \<le> length src \<and> this_line s = cnl (take (current s) src)"

lemma cnl_append: "cnl (xs @ ys) = cnl xs + cnl ys"
  by (simp add: cnl_def)

lemma cnl_zero: "CHR 0x0A \<notin> set xs \<Longrightarrow> cnl xs = 0"
  by (induction xs) (auto simp: cnl_def)

lemma take_length_takeWhile: "take (length (takeWhile P xs)) xs = takeWhile P xs"
  by (metis takeWhile_eq_take)

lemma length_takeWhile_drop: "current s + length (takeWhile P (drop (current s) src)) \<le> length src \<longleftrightarrow> current s \<le> length src"
  using length_takeWhile_le [of P "drop (current s) src"] by auto

lemma scanInv_run:
  assumes "scanInv src s" and "CHR 0x0A \<notin> set (takeWhile P (drop (current s) src))"
  shows "scanInv src (s\<lparr>current := current s + length (takeWhile P (drop (current s) src))\<rparr>)"
  using assms length_takeWhile_le [of P "drop (current s) src"]
  by (auto simp: scanInv_def take_add cnl_append take_length_takeWhile cnl_zero)

lemma scanInv_digits: "scanInv src s \<Longrightarrow> scanInv src (digits src s)"
  unfolding digits_eq
  by (rule scanInv_run) (auto dest!: set_takeWhileD simp: digitChar_def)

lemma scanInv_binaryDigits: "scanInv src s \<Longrightarrow> scanInv src (binaryDigits src s)"
  unfolding binaryDigits_eq
  by (rule scanInv_run) (auto dest!: set_takeWhileD simp: binaryChar_def)

lemma scanInv_lineComment: "scanInv src s \<Longrightarrow> scanInv src (lineComment src s)"
  unfolding lineComment_eq
  by (rule scanInv_run) (auto dest!: set_takeWhileD)

lemma scanInv_stringBody: "scanInv src s \<Longrightarrow> scanInv src (stringBody src s)"
  using length_takeWhile_le [of "\<lambda>c. c \<noteq> CHR 0x22" "drop (current s) src"]
  by (auto simp: stringBody_eq scanInv_def take_add cnl_append take_length_takeWhile)

lemma scanInv_advance:
  assumes "scanInv src s" and "charAt src (current s) \<noteq> []" and "charAt src (current s) \<noteq> nl"
  shows "scanInv src (snd (advance src 1 s))"
  using assms
  by (auto simp: scanInv_def advance_def charAt_def nl_def take_Suc_conv_app_nth cnl_append cnl_def
      split: if_splits)

lemma scanInv_advance2:
  assumes "scanInv src s" and "charAt src (current s) \<noteq> nl"
    and "charAt src (current s + 1) \<noteq> nl" and "charAt src (current s + 2) \<noteq> []"
  shows "scanInv src (snd (advance src 2 s))"
proof -
  have lt: "current s + 2 < length src" using assms(4) by (simp add: charAt_def split: if_splits)
  then have "take (current s + 2) src = take (current s) src @ [src ! current s, src ! (current s + 1)]"
    by (simp add: take_Suc_conv_app_nth numeral_2_eq_2)
  with assms lt show ?thesis
    by (simp add: scanInv_def advance_def charAt_def nl_def cnl_append cnl_def)
qed

lemma scanInv_fields [simp]:
  "scanInv src (s\<lparr>tokens := ts\<rparr>) = scanInv src s"
  "scanInv src (s\<lparr>errors := es\<rparr>) = scanInv src s"
  "scanInv src (s\<lparr>start := a\<rparr>) = scanInv src s"
  by (simp_all add: scanInv_def)

lemma scanInv_addToken [simp]: "scanInv src (addToken src k s) = scanInv src s"
  by (simp add: addToken_def)

lemma scanInv_console_error [simp]: "scanInv src (console_error m s) = scanInv src s"
  by (simp add: console_error_def)

lemma scanInv_match:
  "scanInv src s \<Longrightarrow> expected \<noteq> nl \<Longrightarrow> scanInv src (snd (match src expected s))"
  using scanInv_advance [of src s]
  by (auto simp: match_def advance_def reachedEOF_iff charAt_def)

lemma peek_charAt: "peek src s = charAt src (current s)"
  by (simp add: peek_def reachedEOF_iff charAt_def)

lemma peekNext_charAt: "peekNext src k s \<noteq> [] \<Longrightarrow> peekNext src k s = charAt src (current s + k)"
  by (simp add: peekNext_def split: if_splits)

lemma isDigit_nonempty: "isDigit c \<Longrightarrow> c \<noteq> []"
  by (auto simp: isDigit_def)

lemma isDigit_not_nl: "isDigit c \<Longrightarrow> c \<noteq> nl"
  by (auto simp: isDigit_def nl_def digitChar_def)

lemma lower_e_not_nl: "toLowerCase c = ''e'' \<Longrightarrow> c \<noteq> nl \<and> c \<noteq> []"
  by (auto simp: toLowerCase_def nl_def lowerChar_def)

lemma lower_b_not_nl: "toLowerCase c = ''b'' \<Longrightarrow> c \<noteq> nl \<and> c \<noteq> []"
  by (auto simp: toLowerCase_def nl_def lowerChar_def)

lemma peekNext_pos: "peekNext src 1 s \<noteq> [] \<Longrightarrow> charAt src (current s) \<noteq> []"
  by (simp add: peekNext_def charAt_def split: if_splits)

lemma scanInv_number: assumes "scanInv src s" shows "scanInv src (number src s)"
proof -
  define s1 where "s1 = digits src s"
  define s2 where "s2 = (if peek src s1 = ''.'' \<and> isDigit (peekNext src 1 s1)
                then digits src (snd (advance src 1 s1)) else s1)"
  define s3 where "s3 = (if toLowerCase (peek src s2) = ''e'' then
                  (if isDigit (peekNext src 1 s2) then digits src (snd (advance src 1 s2))
                   else if peekNext src 1 s2 = ''-'' \<and> isDigit (peekNext src 2 s2)
                     then digits src (snd (advance src 2 s2))
                   else s2)
                else s2)"
  have i1: "scanInv src s1" using assms by (simp add: s1_def scanInv_digits)
  have i2: "scanInv src s2"
  proof (cases "peek src s1 = ''.'' \<and> isDigit (peekNext src 1 s1)")
    case True
    then have "scanInv src (snd (advance src 1 s1))"
      using i1 by (intro scanInv_advance) (simp_all add: peek_charAt nl_def)
    with True show ?thesis by (simp add: s2_def scanInv_digits)
  next
    case False
    then have "s2 = s1" unfolding s2_def by (simp only: if_False)
    then show ?thesis using i1 by simp
  qed
  have i3: "scanInv src s3"
  proof (cases "toLowerCase (peek src s2) = ''e''")
    case False
    then show ?thesis using i2 by (simp add: s3_def)
  next
    case True
    note e = lower_e_not_nl [OF True, unfolded peek_charAt]
    show ?thesis
    proof (cases "isDigit (peekNext src 1 s2)")
      case True
      have "scanInv src (snd (advance src 1 s2))"
        using i2 e by (intro scanInv_advance) simp_all
      with True \<open>toLowerCase (peek src s2) = ''e''\<close> show ?thesis
        by (simp add: s3_def scanInv_digits)
    next
      case False
      show ?thesis
      proof (cases "peekNext src 1 s2 = ''-'' \<and> isDigit (peekNext src 2 s2)")
        case True
        then have a: "charAt src (current s2 + 1) = ''-''"
          using peekNext_charAt [of src 1 s2] by simp
        from True have "peekNext src 2 s2 \<noteq> []" by (auto dest: isDigit_nonempty)
        then have b: "charAt src (current s2 + 2) \<noteq> []"
          using peekNext_charAt [of src 2 s2] by simp
        have "scanInv src (snd (advance src 2 s2))"
          using i2 e a b by (intro scanInv_advance2) (simp_all add: nl_def)
        with True False \<open>toLowerCase (peek src s2) = ''e''\<close> show ?thesis
          by (simp add: s3_def scanInv_digits)
      next
        case F2: False
        have "s3 = s2" unfolding s3_def using False F2 by (simp only: if_False if_True if_cancel simp_thms)
        with i2 show ?thesis by simp
      qed
    qed
  qed
  have "number src s = addToken src (number_t (Number_js (slice src (start s3) (current s3)))
          (if CHR ''e'' \<in> set (toLowerCase (slice src (start s3) (current s3))) then exponential else decimal)) s3"
    by (simp add: number_def Let_def s1_def s2_def s3_def)
  with i3 show ?thesis by simp
qed

lemma scanInv_leadingZeroNumber:
  assumes "scanInv src s" shows "scanInv src (leadingZeroNumber src s)"
proof (cases "toLowerCase (peek src s) = ''b''")
  case False
  then show ?thesis using assms by (simp add: leadingZeroNumber_def scanInv_number)
next
  case True
  note b = lower_b_not_nl [OF True, unfolded peek_charAt]
  show ?thesis
  proof (cases "isBinaryDigit (peekNext src 1 s)")
    case True
    have "scanInv src (binaryDigits src (snd (advance src 1 s)))"
      using assms b by (intro scanInv_binaryDigits scanInv_advance) simp_all
    with True \<open>toLowerCase (peek src s) = ''b''\<close> show ?thesis
      by (simp add: leadingZeroNumber_def Let_def)
  next
    case False
    with True assms show ?thesis by (simp add: leadingZeroNumber_def Let_def)
  qed
qed

lemma scanInv_string: assumes "scanInv src s" shows "scanInv src (string src s)"
proof -
  let ?s1 = "stringBody src s"
  have i1: "scanInv src ?s1" using assms by (rule scanInv_stringBody)
  show ?thesis
  proof (cases "reachedEOF src ?s1")
    case True
    then show ?thesis using i1 by (simp add: string_def Let_def)
  next
    case False
    then have lt: "current ?s1 < length src" by (simp add: reachedEOF_iff)
    have "drop (current ?s1) src = dropWhile (\<lambda>c. c \<noteq> CHR 0x22) (drop (current s) src)"
      by (simp add: stringBody_eq dropWhile_eq_drop add.commute)
    moreover have "drop (current ?s1) src \<noteq> []" using lt by simp
    ultimately have "hd (drop (current ?s1) src) = CHR 0x22"
      using hd_dropWhile [of "\<lambda>c. c \<noteq> CHR 0x22" "drop (current s) src"] by auto
    then have "charAt src (current ?s1) = dq"
      using lt by (simp add: charAt_def dq_def hd_drop_conv_nth)
    then have "scanInv src (snd (advance src 1 ?s1))"
      using i1 by (intro scanInv_advance) (simp_all add: dq_def nl_def)
    with False show ?thesis by (simp add: string_def Let_def)
  qed
qed

lemma scanInv_matchEq: "scanInv src s \<Longrightarrow> scanInv src (matchEq src a b s)"
  using scanInv_match [of src s "''=''"] by (simp add: matchEq_def split_beta nl_def)

lemma scanToken_scanInv:
  assumes "scanInv src s" and "current s < length src"
  shows "scanInv src (scanToken src s)"
proof -
  let ?c = "fst (advance src 1 s)" and ?s = "snd (advance src 1 s)"
  have c: "?c = charAt src (current s)" by (simp add: advance_def)
  have ne: "charAt src (current s) \<noteq> []" using assms(2) by (simp add: charAt_def)
  have nl: "scanInv src (?s\<lparr>this_line := this_line ?s + 1\<rparr>)" if "?c = nl"
    using that assms by (simp add: scanInv_def advance_def charAt_def nl_def
        take_Suc_conv_app_nth cnl_append cnl_def)
  have other: "scanInv src ?s" if "?c \<noteq> nl"
    using that assms ne c by (intro scanInv_advance) simp_all
  have lc: "scanInv src (lineComment src (snd (match src ''-'' ?s)))" if "?c \<noteq> nl"
    using other [OF that] by (intro scanInv_lineComment scanInv_match) (simp_all add: nl_def)
  have mm: "scanInv src (snd (match src ''-'' ?s))" if "?c \<noteq> nl"
    using other [OF that] by (intro scanInv_match) (simp_all add: nl_def)
  show ?thesis
    using nl other lc mm scanInv_number [of src ?s] scanInv_leadingZeroNumber [of src ?s]
      scanInv_string [of src ?s] scanInv_matchEq [of src ?s]
    by (simp add: scanToken_def split_beta Let_def nl_def cr_def tab_def dq_def)
qed

subsection \<open>The dispatch of \<open>scanToken\<close>, case by case\<close>

lemma advance_simps [simp]:
  "snd (advance src n s) = s\<lparr>current := current s + n\<rparr>"
  "fst (advance src (Suc n) s) = charAt src (current s + n)"
  by (simp_all add: advance_def Let_def)

lemma match_simps:
  "fst (match src e s) \<longleftrightarrow> current s < length src \<and> charAt src (current s) = e"
  "snd (match src e s) = (if fst (match src e s) then s\<lparr>current := current s + 1\<rparr> else s)"
  by (auto simp: match_def reachedEOF_iff)

lemma scanToken_cases [case_names single comment minus two one blank newline zero digit quote other]:
  fixes src :: string and s :: "TokenADT Tokenizer"
  assumes
    single: "\<And>k. (charAt src (current s), k) \<in> set [(''('', leftParen), ('')'', rightParen),
        (''{'', leftBrace), (''}'', rightBrace), ('','', comma), (''.'', dot), (''+'', plus_t),
        ('';'', semicolon), (''*'', star), (''/'', slash)] \<Longrightarrow>
      scanToken src s = addToken src k (s\<lparr>current := current s + 1\<rparr>) \<Longrightarrow> P"
  and comment: "charAt src (current s) = ''-'' \<Longrightarrow> charAt src (current s + 1) = ''-'' \<Longrightarrow>
      current s + 1 < length src \<Longrightarrow>
      scanToken src s = lineComment src (s\<lparr>current := current s + 2\<rparr>) \<Longrightarrow> P"
  and minus: "charAt src (current s) = ''-'' \<Longrightarrow>
      \<not> (current s + 1 < length src \<and> charAt src (current s + 1) = ''-'') \<Longrightarrow>
      scanToken src s = addToken src minus_t (s\<lparr>current := current s + 1\<rparr>) \<Longrightarrow> P"
  and two: "\<And>a b. (charAt src (current s), a, b) \<in> set [(''!'', bangEqual, bang),
        (''='', equalEqual, equal), (''<'', lessEqual, less_t), (''>'', greaterEqual, greater_t)] \<Longrightarrow>
      charAt src (current s + 1) = ''='' \<Longrightarrow> current s + 1 < length src \<Longrightarrow>
      scanToken src s = addToken src a (s\<lparr>current := current s + 2\<rparr>) \<Longrightarrow> P"
  and one: "\<And>a b. (charAt src (current s), a, b) \<in> set [(''!'', bangEqual, bang),
        (''='', equalEqual, equal), (''<'', lessEqual, less_t), (''>'', greaterEqual, greater_t)] \<Longrightarrow>
      \<not> (current s + 1 < length src \<and> charAt src (current s + 1) = ''='') \<Longrightarrow>
      scanToken src s = addToken src b (s\<lparr>current := current s + 1\<rparr>) \<Longrightarrow> P"
  and blank: "charAt src (current s) \<in> {'' '', cr, tab} \<Longrightarrow>
      scanToken src s = s\<lparr>current := current s + 1\<rparr> \<Longrightarrow> P"
  and newline: "charAt src (current s) = nl \<Longrightarrow>
      scanToken src s = s\<lparr>current := current s + 1, this_line := this_line s + 1\<rparr> \<Longrightarrow> P"
  and zero: "charAt src (current s) = ''0'' \<Longrightarrow>
      scanToken src s = leadingZeroNumber src (s\<lparr>current := current s + 1\<rparr>) \<Longrightarrow> P"
  and digit: "isDigit (charAt src (current s)) \<Longrightarrow>
      charAt src (current s) \<in> set nonzeroDigits \<Longrightarrow>
      scanToken src s = number src (s\<lparr>current := current s + 1\<rparr>) \<Longrightarrow> P"
  and quote: "charAt src (current s) = dq \<Longrightarrow>
      scanToken src s = string src (s\<lparr>current := current s + 1\<rparr>) \<Longrightarrow> P"
  and other: "charAt src (current s) \<notin> {'' '', cr, tab, nl} \<Longrightarrow>
      charAt src (current s) \<notin> set (map (\<lambda>c. [c]) recognised) \<Longrightarrow>
      scanToken src s =
        console_error (''Unexpected character: '' @ dq @ charAt src (current s) @ dq)
          (s\<lparr>current := current s + 1\<rparr>) \<Longrightarrow> P"
  shows P
proof -
  define c where "c = charAt src (current s)"
  define s1 where "s1 = s\<lparr>current := current s + 1\<rparr>"
  have st: "scanToken src s =
     (if c = ''('' then addToken src leftParen s1
      else if c = '')'' then addToken src rightParen s1
      else if c = ''{'' then addToken src leftBrace s1
      else if c = ''}'' then addToken src rightBrace s1
      else if c = '','' then addToken src comma s1
      else if c = ''.'' then addToken src dot s1
      else if c = ''-'' then
        (if fst (match src ''-'' s1) then lineComment src (snd (match src ''-'' s1))
         else addToken src minus_t (snd (match src ''-'' s1)))
      else if c = ''+'' then addToken src plus_t s1
      else if c = '';'' then addToken src semicolon s1
      else if c = ''*'' then addToken src star s1
      else if c = ''/'' then addToken src slash s1
      else if c = ''!'' then matchEq src bangEqual bang s1
      else if c = ''='' then matchEq src equalEqual equal s1
      else if c = ''<'' then matchEq src lessEqual less_t s1
      else if c = ''>'' then matchEq src greaterEqual greater_t s1
      else if c = '' '' \<or> c = cr \<or> c = tab then s1
      else if c = nl then s1\<lparr>this_line := this_line s1 + 1\<rparr>
      else if c = ''0'' then leadingZeroNumber src s1
      else if c \<in> set nonzeroDigits
        then number src s1
      else if c = dq then string src s1
      else console_error (''Unexpected character: '' @ dq @ c @ dq) s1)"
    unfolding scanToken_def c_def s1_def
    by (simp only: split_beta Let_def advance_simps One_nat_def add_0_right)
  have m: "matchEq src a b s1 =
      (if current s + 1 < length src \<and> charAt src (current s + 1) = ''=''
       then addToken src a (s\<lparr>current := current s + 2\<rparr>) else addToken src b s1)" for a b
    by (simp add: matchEq_def split_beta match_simps s1_def)
  have mm: "fst (match src ''-'' s1) \<longleftrightarrow> current s + 1 < length src \<and> charAt src (current s + 1) = ''-''"
    "snd (match src ''-'' s1) = (if fst (match src ''-'' s1) then s\<lparr>current := current s + 2\<rparr> else s1)"
    by (simp_all add: match_simps s1_def)
  consider "c = ''(''" | "c = '')''" | "c = ''{''" | "c = ''}''" | "c = '',''" | "c = ''.''"
    | "c = ''-''" | "c = ''+''" | "c = '';''" | "c = ''*''" | "c = ''/''" | "c = ''!''"
    | "c = ''=''" | "c = ''<''" | "c = ''>''" | "c = '' '' \<or> c = cr \<or> c = tab" | "c = nl"
    | "c = ''0''" | "c \<in> set nonzeroDigits"
    | "c = dq"
    | "c \<notin> set [''('', '')'', ''{'', ''}'', '','', ''.'', ''-'', ''+'', '';'', ''*'', ''/'', ''!'',
         ''='', ''<'', ''>'', '' '', cr, tab, nl, ''0'', dq] \<and> c \<notin> set nonzeroDigits"
    by auto
  then show P
  proof cases
    case 1 then show ?thesis using single [of leftParen] st by (simp add: c_def s1_def) next
    case 2 then show ?thesis using single [of rightParen] st by (simp add: c_def s1_def) next
    case 3 then show ?thesis using single [of leftBrace] st by (simp add: c_def s1_def) next
    case 4 then show ?thesis using single [of rightBrace] st by (simp add: c_def s1_def) next
    case 5 then show ?thesis using single [of comma] st by (simp add: c_def s1_def) next
    case 6 then show ?thesis using single [of dot] st by (simp add: c_def s1_def) next
    case 7 then show ?thesis using comment minus st mm by (simp add: c_def s1_def split: if_splits) next
    case 8 then show ?thesis using single [of plus_t] st by (simp add: c_def s1_def) next
    case 9 then show ?thesis using single [of semicolon] st by (simp add: c_def s1_def) next
    case 10 then show ?thesis using single [of star] st by (simp add: c_def s1_def) next
    case 11 then show ?thesis using single [of slash] st by (simp add: c_def s1_def) next
    case 12 then show ?thesis using two [of bangEqual bang] one [of bangEqual bang] st m
        by (simp add: c_def s1_def split: if_splits) next
    case 13 then show ?thesis using two [of equalEqual equal] one [of equalEqual equal] st m
        by (simp add: c_def s1_def split: if_splits) next
    case 14 then show ?thesis using two [of lessEqual less_t] one [of lessEqual less_t] st m
        by (simp add: c_def s1_def split: if_splits) next
    case 15 then show ?thesis using two [of greaterEqual greater_t] one [of greaterEqual greater_t] st m
        by (simp add: c_def s1_def split: if_splits) next
    case 16 then show ?thesis using blank st by (auto simp add: c_def s1_def cr_def tab_def) next
    case 17 then show ?thesis using newline st by (simp add: c_def s1_def nl_def cr_def tab_def) next
    case 18 then show ?thesis using zero st by (simp add: c_def s1_def nl_def cr_def tab_def) next
    case 19 then show ?thesis using digit st
        by (auto simp add: c_def s1_def nl_def cr_def tab_def isDigit_def digitChar_def
            nonzeroDigits_def) next
    case 20 then show ?thesis using quote st
        by (simp add: c_def s1_def nl_def cr_def tab_def dq_def nonzeroDigits_def) next
    case 21 then show ?thesis using other st
        by (simp add: c_def s1_def nonzeroDigits_def recognised_def cr_def tab_def nl_def dq_def)
  qed
qed

subsection \<open>What a step does to the state\<close>

lemma slice_from: "slice src a (a + n) = take n (drop a src)"
  by (simp add: slice_def)

lemma charAt_one: "i < length src \<Longrightarrow> charAt src i = [src ! i]"
  by (simp add: charAt_def)

lemma charAt_eq_single: "charAt src i = [c] \<longleftrightarrow> i < length src \<and> src ! i = c"
  by (auto simp: charAt_def)

lemma take_1_drop: "take (Suc 0) (drop i src) = charAt src i"
  by (simp add: charAt_take_drop)

lemma take_SucSuc: "take (Suc (Suc n)) xs = take 1 xs @ take 1 (drop 1 xs) @ take n (drop 2 xs)"
proof (cases xs)
  case (Cons x r)
  then show ?thesis by (cases r) (simp_all add: numeral_2_eq_2)
qed simp

lemma take_SucSuc_drop:
  "take (Suc (Suc n)) (drop i src) =
     charAt src i @ charAt src (Suc i) @ take n (drop (Suc (Suc i)) src)"
  using take_SucSuc [of n "drop i src"] by (simp add: charAt_take_drop numeral_2_eq_2)

definition emitted :: "string \<Rightarrow> TokenADT Tokenizer \<Rightarrow> TokenADT Tokenizer \<Rightarrow> bool" where
  "emitted src s s' \<longleftrightarrow>
     tokens s' = tokens s \<or>
     (\<exists>k. k \<noteq> eof \<and>
        tokens s' = tokens s @
          [\<lparr>adt = k, lexeme = slice src (start s) (current s'), line = this_line s'\<rparr>])"

lemma scanToken_start: "start (scanToken src s) = start s"
  by (cases src s rule: scanToken_cases)
     (simp_all add: addToken_def lineComment_eq console_error_def number_frame
        leadingZeroNumber_frame string_frame)

lemma scanToken_errors: "prefix (errors s) (errors (scanToken src s))"
proof (cases src s rule: scanToken_cases)
  case zero
  then show ?thesis
    using leadingZeroNumber_errors [of src "s\<lparr>current := current s + 1\<rparr>"] by auto
next
  case quote
  then show ?thesis
    using string_cases [of src "s\<lparr>current := current s + 1\<rparr>"] by auto
qed (simp_all add: addToken_def lineComment_eq console_error_def number_frame)

lemma scanToken_emitted: "emitted src s (scanToken src s)"
proof (cases src s rule: scanToken_cases)
  case zero
  then show ?thesis
    using leadingZeroNumber_tokens [of src "s\<lparr>current := current s + 1\<rparr>"]
    by (auto simp: emitted_def leadingZeroNumber_frame)
next
  case digit
  then show ?thesis
    using number_tokens [of src "s\<lparr>current := current s + 1\<rparr>"]
    by (simp add: emitted_def number_frame)
next
  case quote
  then show ?thesis
    using string_cases [of src "s\<lparr>current := current s + 1\<rparr>"]
    by (auto simp: emitted_def)
next
  case (single k)
  then show ?thesis by (auto simp: emitted_def addToken_def)
next
  case (two a b)
  then show ?thesis by (auto simp: emitted_def addToken_def)
next
  case (one a b)
  then show ?thesis by (auto simp: emitted_def addToken_def)
qed (simp_all add: emitted_def addToken_def lineComment_eq console_error_def)

lemma scanToken_this_line: "this_line s \<le> this_line (scanToken src s)"
proof (cases src s rule: scanToken_cases)
  case quote
  then show ?thesis
    by (simp add: string_def Let_def addToken_def stringBody_eq console_error_def)
qed (simp_all add: addToken_def lineComment_eq console_error_def number_frame
        leadingZeroNumber_frame)

text \<open>A span that the scan skips silently: one blank or line terminator, or a line comment.\<close>

definition skipped :: "string \<Rightarrow> bool" where
  "skipped sp \<longleftrightarrow> sp \<in> {'' '', cr, tab, nl} \<or> (take 2 sp = ''--'' \<and> CHR 0x0A \<notin> set sp)"

lemma scanToken_skipped:
  assumes "tokens (scanToken src s) = tokens s" and "errors (scanToken src s) = errors s"
    and "current s < length src"
  shows "skipped (slice src (current s) (current (scanToken src s)))"
proof (cases src s rule: scanToken_cases)
  case comment
  let ?w = "takeWhile (\<lambda>c. c \<noteq> CHR 0x0A) (drop (current s + 2) src)"
  have "slice src (current s) (current (scanToken src s)) = take (2 + length ?w) (drop (current s) src)"
    using comment slice_from [of src "current s" "2 + length ?w"]
    by (simp add: lineComment_eq add.assoc)
  also have "\<dots> = ''--'' @ ?w"
    using comment by (simp add: take_SucSuc_drop take_length_takeWhile)
  finally show ?thesis
    by (auto simp: skipped_def dest: set_takeWhileD)
next
  case blank
  then show ?thesis
    using slice_from [of src "current s" 1] by (auto simp: skipped_def take_1_drop)
next
  case newline
  then show ?thesis
    using slice_from [of src "current s" 1] by (simp add: skipped_def take_1_drop)
next
  case zero
  then show ?thesis
    using assms(1) leadingZeroNumber_tokens [of src "s\<lparr>current := current s + 1\<rparr>"] by auto
next
  case digit
  then show ?thesis
    using assms(1) number_tokens [of src "s\<lparr>current := current s + 1\<rparr>"] by simp
next
  case quote
  then show ?thesis
    using assms(1,2) string_cases [of src "s\<lparr>current := current s + 1\<rparr>"] by auto
qed (use assms in \<open>simp_all add: addToken_def console_error_def\<close>)

section \<open>The returned sequence ends with the end-of-input token\<close>

lemma scanLoop_no_eof:
  "eof \<notin> adt ` set (tokens s) \<Longrightarrow> eof \<notin> adt ` set (tokens (scanLoop src s))"
proof (induction src s rule: scanLoop.induct)
  case (1 src s)
  show ?case
  proof (cases "reachedEOF src s")
    case True
    then show ?thesis using 1(2) by (simp add: scanLoop.simps)
  next
    case False
    let ?s = "s\<lparr>start := current s\<rparr>"
    have "emitted src ?s (scanToken src ?s)" by (rule scanToken_emitted)
    with 1(2) have "eof \<notin> adt ` set (tokens (scanToken src ?s))"
      by (auto simp: emitted_def)
    from 1(1) [OF False this] False show ?thesis
      by (simp add: scanLoop.simps [of src s])
  qed
qed

lemma scanTokens_snoc:
  "scanTokens src =
     tokens (scanLoop src init) @
     [\<lparr>adt = eof, lexeme = [], line = this_line (scanLoop src init)\<rparr>]"
  by (simp add: scanTokens_def run_def Let_def)

text \<open>
  C1.  \<open>scanTokens\<close> is a total function (its loop is defined with a termination proof,
  each step moving \<open>current\<close> forward), and for every input it returns a sequence whose
  last element is the end-of-input token, of kind \<open>eof\<close> with the empty lexeme; no earlier
  element has kind \<open>eof\<close>; for the empty input the sequence is exactly that one token.
\<close>

theorem scanTokens_eof_last:
  "scanTokens src \<noteq> [] \<and>
   adt (last (scanTokens src)) = eof \<and>
   lexeme (last (scanTokens src)) = [] \<and>
   eof \<notin> adt ` set (butlast (scanTokens src)) \<and>
   scanTokens [] = [\<lparr>adt = eof, lexeme = [], line = 0\<rparr>]"
proof -
  have "eof \<notin> adt ` set (tokens (scanLoop src init))"
    by (rule scanLoop_no_eof) (simp add: init_def)
  moreover have "scanLoop [] init = (init :: TokenADT Tokenizer)"
    by (simp add: scanLoop.simps reachedEOF_iff)
  ultimately show ?thesis
    by (simp add: scanTokens_snoc) (simp add: init_def)
qed

section \<open>Line numbers never decrease\<close>

definition linesOK :: "TokenADT Tokenizer \<Rightarrow> bool" where
  "linesOK s \<longleftrightarrow> sorted (map line (tokens s)) \<and> list_all (\<lambda>t. line t \<le> this_line s) (tokens s)"

lemma scanToken_linesOK:
  assumes "linesOK s" shows "linesOK (scanToken src (s\<lparr>start := current s\<rparr>))"
proof -
  let ?s = "s\<lparr>start := current s\<rparr>"
  let ?s' = "scanToken src ?s"
  have e: "emitted src ?s ?s'" by (rule scanToken_emitted)
  have l: "this_line s \<le> this_line ?s'" using scanToken_this_line [of ?s src] by simp
  from e assms l show ?thesis
    by (fastforce simp: emitted_def linesOK_def list_all_iff sorted_append intro: order_trans)
qed

lemma scanLoop_linesOK: "linesOK s \<Longrightarrow> linesOK (scanLoop src s)"
proof (induction src s rule: scanLoop.induct)
  case (1 src s)
  show ?case
  proof (cases "reachedEOF src s")
    case True
    then show ?thesis using 1(2) by (simp add: scanLoop.simps)
  next
    case False
    from 1(1) [OF False scanToken_linesOK [OF 1(2)]] False show ?thesis
      by (simp add: scanLoop.simps [of src s])
  qed
qed

text \<open>
  C10.  For every input the line fields of the returned tokens are non-decreasing in
  sequence order, and the line of the end-of-input token (the last one) is at least the
  line of every token of the sequence.
\<close>

theorem scanTokens_lines_sorted:
  "sorted (map line (scanTokens src)) \<and>
   list_all (\<lambda>t. line t \<le> line (last (scanTokens src))) (scanTokens src)"
proof -
  have "linesOK (scanLoop src init)"
    by (rule scanLoop_linesOK) (simp add: linesOK_def init_def)
  then show ?thesis
    by (auto simp: scanTokens_snoc linesOK_def list_all_iff sorted_append)
qed

theorem scanTokens_lines_sorted_witness:
  "map line (scanTokens (''1'' @ nl @ ''+'' @ nl @ nl @ ''2'')) = [0, 1, 3, 3] \<and>
   sorted (map line (scanTokens (''1'' @ nl @ ''+'' @ nl @ nl @ ''2'')))"
  using scanTokens_lines_sorted [of "''1'' @ nl @ ''+'' @ nl @ nl @ ''2''"]
  by (intro conjI) (code_simp, simp)

section \<open>The states of a scan\<close>

text \<open>The states in which the loop of \<open>scanTokens\<close> tests its condition.\<close>

inductive reaches :: "string \<Rightarrow> TokenADT Tokenizer \<Rightarrow> bool" for src :: string where
  reaches_init: "reaches src init"
| reaches_step: "reaches src s \<Longrightarrow> \<not> reachedEOF src s \<Longrightarrow>
     reaches src (scanToken src (s\<lparr>start := current s\<rparr>))"

code_pred reaches .

lemma reaches_scanLoop: "reaches src s \<Longrightarrow> scanLoop src s = scanLoop src init"
proof (induction rule: reaches.induct)
  case reaches_init
  show ?case by simp
next
  case (reaches_step s)
  then show ?case using scanLoop.simps [of src s] by simp
qed

lemma reaches_scanInv: "reaches src s \<Longrightarrow> scanInv src s"
proof (induction rule: reaches.induct)
  case reaches_init
  show ?case by (simp add: scanInv_def init_def cnl_def)
next
  case (reaches_step s)
  then show ?case
    using scanToken_scanInv [of src "s\<lparr>start := current s\<rparr>"]
    by (simp add: reachedEOF_iff)
qed

lemma scanLoop_scanInv: "scanInv src s \<Longrightarrow> scanInv src (scanLoop src s)"
proof (induction src s rule: scanLoop.induct)
  case (1 src s)
  show ?case
  proof (cases "reachedEOF src s")
    case True
    then show ?thesis using 1(2) by (simp add: scanLoop.simps)
  next
    case False
    have "scanInv src (scanToken src (s\<lparr>start := current s\<rparr>))"
      using scanToken_scanInv [of src "s\<lparr>start := current s\<rparr>"] 1(2) False
      by (simp add: reachedEOF_iff)
    from 1(1) [OF False this] False show ?thesis
      by (simp add: scanLoop.simps [of src s])
  qed
qed

lemma scanLoop_current: "scanInv src s \<Longrightarrow> current (scanLoop src s) = length src"
proof -
  assume "scanInv src s"
  then have "current (scanLoop src s) \<le> length src"
    using scanLoop_scanInv [of src s] by (simp add: scanInv_def)
  moreover have "reachedEOF src (scanLoop src s)"
  proof (induction src s rule: scanLoop.induct)
    case (1 src s)
    then show ?case using scanLoop.simps [of src s] by (cases "reachedEOF src s") simp_all
  qed
  ultimately show ?thesis by (simp add: reachedEOF_iff)
qed

section \<open>The text of a token\<close>

text \<open>
  The text that a number takes from the input ahead of it, following the spec (4.1, 5):
  a maximal run of decimal digits; then a point and a further run of digits, when a digit
  follows the point at once; then an exponent marker \<open>e\<close> or \<open>E\<close> with a run of digits,
  or with \<open>-\<close> and a run of digits, when one of these two shapes follows the marker.
\<close>

definition fractionText :: "string \<Rightarrow> string" where
  "fractionText r =
     (case r of
        c # d # r' \<Rightarrow> if c = CHR ''.'' \<and> digitChar d then c # takeWhile digitChar (d # r') else []
      | _ \<Rightarrow> [])"

definition exponentText :: "string \<Rightarrow> string" where
  "exponentText r =
     (case r of
        e # d # r' \<Rightarrow>
          if lowerChar e = CHR ''e'' then
            (if digitChar d then e # takeWhile digitChar (d # r')
             else if d = CHR ''-'' \<and> r' \<noteq> [] \<and> digitChar (hd r')
               then e # d # takeWhile digitChar r'
             else [])
          else []
      | _ \<Rightarrow> [])"

definition decimalText :: "string \<Rightarrow> string" where
  "decimalText rest =
     (let ip = takeWhile digitChar rest;
          r1 = dropWhile digitChar rest;
          fp = fractionText r1;
          r2 = drop (length fp) r1
      in ip @ fp @ exponentText r2)"

lemma peekNext_take_drop: "0 < k \<Longrightarrow> peekNext src k s = take 1 (drop (current s + k) src)"
  by (simp add: peekNext_def charAt_take_drop)

lemma isDigit_single [simp]: "isDigit [c] = digitChar c" "isDigit [] = False"
  by (simp_all add: isDigit_def)

lemma lower_single [simp]: "toLowerCase [c] = [lowerChar c]" "toLowerCase [] = []"
  by (simp_all add: toLowerCase_def)

lemma drop_Suc_Suc_of_Cons: "drop n xs = c # d # r \<Longrightarrow> drop (Suc (Suc n)) xs = r"
  by (metis drop_Suc_of_Cons)

lemma fraction_step:
  "(if peek src s = ''.'' \<and> isDigit (peekNext src 1 s)
    then digits src (snd (advance src 1 s)) else s)
   = s\<lparr>current := current s + length (fractionText (drop (current s) src))\<rparr>"
proof (cases "drop (current s) src")
  case Nil
  then show ?thesis by (simp add: peek_take_drop fractionText_def)
next
  case (Cons c r)
  note r = drop_Suc_of_Cons [OF Cons]
  show ?thesis
  proof (cases r)
    case Nil
    with Cons r show ?thesis by (simp add: peek_take_drop peekNext_take_drop fractionText_def)
  next
    case (Cons d r')
    with \<open>drop (current s) src = c # r\<close> r show ?thesis
      by (simp add: peek_take_drop peekNext_take_drop fractionText_def digits_eq)
  qed
qed

lemma exponent_step:
  "(if toLowerCase (peek src s) = ''e'' then
      (if isDigit (peekNext src 1 s) then digits src (snd (advance src 1 s))
       else if peekNext src 1 s = ''-'' \<and> isDigit (peekNext src 2 s)
         then digits src (snd (advance src 2 s))
       else s)
    else s)
   = s\<lparr>current := current s + length (exponentText (drop (current s) src))\<rparr>"
proof (cases "drop (current s) src")
  case Nil
  then show ?thesis by (simp add: peek_take_drop exponentText_def)
next
  case (Cons e r)
  note r = drop_Suc_of_Cons [OF Cons]
  show ?thesis
  proof (cases r)
    case Nil
    with Cons r show ?thesis by (simp add: peek_take_drop peekNext_take_drop exponentText_def)
  next
    case (Cons d r')
    have r': "drop (Suc (Suc (current s))) src = r'"
      using \<open>drop (current s) src = e # r\<close> Cons by (intro drop_Suc_Suc_of_Cons) simp
    show ?thesis
    proof (cases r')
      case Nil
      with Cons \<open>drop (current s) src = e # r\<close> r r' show ?thesis
        by (simp add: peek_take_drop peekNext_take_drop exponentText_def digits_eq numeral_2_eq_2)
    next
      case (Cons g r'')
      with \<open>r = d # r'\<close> \<open>drop (current s) src = e # r\<close> r r' show ?thesis
        by (simp add: peek_take_drop peekNext_take_drop exponentText_def digits_eq numeral_2_eq_2)
    qed
  qed
qed

lemma number_eq:
  "number src s =
     addToken src
       (number_t (Number_js (slice src (start s) (current s + length (decimalText (drop (current s) src)))))
          (if CHR ''e'' \<in> set (toLowerCase (slice src (start s)
                 (current s + length (decimalText (drop (current s) src)))))
           then exponential else decimal))
       (s\<lparr>current := current s + length (decimalText (drop (current s) src))\<rparr>)"
proof -
  let ?D = "drop (current s) src"
  let ?ip = "takeWhile digitChar ?D"
  let ?s1 = "s\<lparr>current := current s + length ?ip\<rparr>"
  have D1: "drop (current ?s1) src = dropWhile digitChar ?D"
    by (simp add: dropWhile_eq_drop add.commute)
  let ?fp = "fractionText (dropWhile digitChar ?D)"
  let ?s2 = "?s1\<lparr>current := current ?s1 + length ?fp\<rparr>"
  have D2: "drop (current ?s2) src = drop (length ?fp) (dropWhile digitChar ?D)"
    by (simp add: dropWhile_eq_drop add.commute add.left_commute)
  let ?ex = "exponentText (drop (length ?fp) (dropWhile digitChar ?D))"
  have len: "length (decimalText ?D) = length ?ip + length ?fp + length ?ex"
    by (simp add: decimalText_def Let_def)
  show ?thesis
    unfolding number_def Let_def digits_eq [of src s]
    unfolding fraction_step [of src ?s1] D1
    unfolding exponent_step [of src ?s2] D2
    by (simp add: len add.assoc)
qed

text \<open>
  A number that begins with \<open>0\<close> and the marker \<open>b\<close> or \<open>B\<close> takes the marker and a
  maximal run of binary digits; any other number is decimal.  The first version knows no
  other radix marker.  The literal is malformed when no binary digit follows the marker.
\<close>

definition numberText :: "string \<Rightarrow> string" where
  "numberText rest =
     (case rest of
        z # m # r \<Rightarrow>
          if z = CHR ''0'' \<and> lowerChar m = CHR ''b'' then z # m # takeWhile binaryChar r
          else decimalText rest
      | _ \<Rightarrow> decimalText rest)"

definition malformedBinary :: "string \<Rightarrow> bool" where
  "malformedBinary rest =
     (case rest of
        z # m # r \<Rightarrow> z = CHR ''0'' \<and> lowerChar m = CHR ''b'' \<and> \<not> (r \<noteq> [] \<and> binaryChar (hd r))
      | _ \<Rightarrow> False)"

lemma fractionText_prefix: "take (length (fractionText r)) r = fractionText r"
proof (cases r)
  case (Cons c r1)
  then show ?thesis
  proof (cases r1)
    case (Cons d r2)
    with \<open>r = c # r1\<close> show ?thesis
      by (simp add: fractionText_def take_length_takeWhile)
  qed (simp add: fractionText_def)
qed (simp add: fractionText_def)

lemma exponentText_prefix: "take (length (exponentText r)) r = exponentText r"
proof (cases r)
  case (Cons c r1)
  then show ?thesis
  proof (cases r1)
    case (Cons d r2)
    with \<open>r = c # r1\<close> show ?thesis
      by (simp add: exponentText_def take_length_takeWhile)
  qed (simp add: exponentText_def)
qed (simp add: exponentText_def)

lemma prefix_append_take:
  "take (length a) xs = a \<Longrightarrow> take (length b) (drop (length a) xs) = b \<Longrightarrow>
   take (length (a @ b)) xs = a @ b"
  by (simp add: take_add)

lemma decimalText_prefix: "take (length (decimalText r)) r = decimalText r"
proof -
  let ?ip = "takeWhile digitChar r"
  let ?r1 = "dropWhile digitChar r"
  let ?fp = "fractionText ?r1"
  let ?ex = "exponentText (drop (length ?fp) ?r1)"
  have 1: "take (length ?ip) r = ?ip" by (rule take_length_takeWhile)
  have r1: "drop (length ?ip) r = ?r1" by (simp add: dropWhile_eq_drop)
  have 2: "take (length ?fp) (drop (length ?ip) r) = ?fp"
    unfolding r1 by (rule fractionText_prefix)
  have 12: "take (length (?ip @ ?fp)) r = ?ip @ ?fp"
    by (rule prefix_append_take [OF 1 2])
  have "drop (length (?ip @ ?fp)) r = drop (length ?fp) (drop (length ?ip) r)"
    by (simp add: add.commute)
  then have "drop (length (?ip @ ?fp)) r = drop (length ?fp) ?r1"
    unfolding r1 .
  then have 3: "take (length ?ex) (drop (length (?ip @ ?fp)) r) = ?ex"
    by (simp only: exponentText_prefix)
  have "take (length ((?ip @ ?fp) @ ?ex)) r = (?ip @ ?fp) @ ?ex"
    by (rule prefix_append_take [OF 12 3])
  then show ?thesis by (simp add: decimalText_def Let_def)
qed

lemma decimalText_Cons: "digitChar c \<Longrightarrow> decimalText (c # r) = c # decimalText r"
  by (simp add: decimalText_def Let_def)

lemma leadingZeroNumber_eq:
  "leadingZeroNumber src s =
     (case drop (current s) src of
        [] \<Rightarrow> number src s
      | m # r \<Rightarrow>
          if lowerChar m = CHR ''b'' then
            (if r \<noteq> [] \<and> binaryChar (hd r) then
               addToken src
                 (number_t (Number_js (slice src (start s)
                    (current s + 1 + length (takeWhile binaryChar r)))) binary)
                 (s\<lparr>current := current s + 1 + length (takeWhile binaryChar r)\<rparr>)
             else
               addToken src (number_t (Number_js (slice src (start s) (current s))) binary)
                 (console_error ''Binary digit expected'' s))
          else number src s)"
proof (cases "drop (current s) src")
  case Nil
  then show ?thesis by (simp add: leadingZeroNumber_def peek_take_drop)
next
  case (Cons m r)
  note r = drop_Suc_of_Cons [OF Cons]
  show ?thesis
  proof (cases r)
    case Nil
    with Cons r show ?thesis
      by (simp add: leadingZeroNumber_def peek_take_drop peekNext_take_drop isBinaryDigit_def
          Let_def console_error_def)
  next
    case (Cons d r')
    with \<open>drop (current s) src = m # r\<close> r show ?thesis
      by (auto simp: leadingZeroNumber_def peek_take_drop peekNext_take_drop isBinaryDigit_def
          Let_def console_error_def binaryDigits_eq binaryChar_def)
  qed
qed

lemma string_eq:
  assumes "current s \<le> length src"
  shows "string src s =
     (let D = drop (current s) src; w = takeWhile (\<lambda>c. c \<noteq> CHR 0x22) D in
      if CHR 0x22 \<in> set D then
        addToken src (string_t (slice src (start s + 1) (current s + length w)))
          (s\<lparr>current := current s + length w + 1, this_line := this_line s + cnl w\<rparr>)
      else
        console_error ''Unterminated string literal.''
          (s\<lparr>current := length src, this_line := this_line s + cnl D\<rparr>))"
proof -
  let ?D = "drop (current s) src"
  let ?w = "takeWhile (\<lambda>c. c \<noteq> CHR 0x22) ?D"
  show ?thesis
  proof (cases "CHR 0x22 \<in> set ?D")
    case True
    then have "?w \<noteq> ?D" by (metis (mono_tags, lifting) set_takeWhileD)
    then have "length ?w < length ?D"
      using length_takeWhile_le [of "\<lambda>c. c \<noteq> CHR 0x22" ?D]
      by (metis le_neq_implies_less take_all_iff takeWhile_eq_take order_refl)
    then have "current s + length ?w < length src" using assms by simp
    with True show ?thesis
      by (simp add: string_def Let_def stringBody_eq reachedEOF_iff addToken_def)
  next
    case False
    then have w: "?w = ?D" by (intro takeWhile_eq_all_conv [THEN iffD2]) auto
    then have "length ?w = length src - current s" by (metis length_drop)
    with False assms show ?thesis
      by (simp add: string_def Let_def stringBody_eq reachedEOF_iff console_error_def w)
  qed
qed

text \<open>The text of the tokens that have a fixed one.\<close>

fun symbol :: "TokenADT \<Rightarrow> string" where
  "symbol leftParen = ''(''"
| "symbol rightParen = '')''"
| "symbol leftBrace = ''{''"
| "symbol rightBrace = ''}''"
| "symbol comma = '',''"
| "symbol dot = ''.''"
| "symbol minus_t = ''-''"
| "symbol plus_t = ''+''"
| "symbol semicolon = '';''"
| "symbol star = ''*''"
| "symbol slash = ''/''"
| "symbol bangEqual = ''!=''"
| "symbol bang = ''!''"
| "symbol equalEqual = ''==''"
| "symbol equal = ''=''"
| "symbol lessEqual = ''<=''"
| "symbol less_t = ''<''"
| "symbol greaterEqual = ''>=''"
| "symbol greater_t = ''>''"
| "symbol k = []"

text \<open>The two characters that, at the place of a one-character token, make something
  else: its two-character operator, or for \<open>-\<close> the opener of a line comment.\<close>

fun longer :: "TokenADT \<Rightarrow> string" where
  "longer bang = ''!=''"
| "longer equal = ''==''"
| "longer less_t = ''<=''"
| "longer greater_t = ''>=''"
| "longer minus_t = ''--''"
| "longer k = []"

text \<open>
  \<open>lexemeOK rest t\<close>: the lexeme of the token \<open>t\<close>, scanned at the head of the text \<open>rest\<close>,
  is the text that the token takes there.  A number begins with a digit and its lexeme is
  \<open>numberText rest\<close> (radix prefix, point and exponent with its sign included), a
  malformed binary literal apart, of which nothing is said; the lexeme of a string literal
  is the opening quote, the payload, which holds no quote, and the closing quote; the
  lexeme of any other token is its symbol, a one-character symbol only where the longer
  one is not there.
\<close>

definition lexemeOK :: "string \<Rightarrow> TokenADT Token \<Rightarrow> bool" where
  "lexemeOK rest t =
     (take (length (lexeme t)) rest = lexeme t \<and>
      (case adt t of
         number_t v k \<Rightarrow>
           rest \<noteq> [] \<and> digitChar (hd rest) \<and>
           (malformedBinary rest \<or> lexeme t = numberText rest)
       | string_t literal \<Rightarrow> lexeme t = dq @ literal @ dq \<and> CHR 0x22 \<notin> set literal
       | k \<Rightarrow> lexeme t = symbol k \<and> lexeme t \<noteq> [] \<and> (longer k = [] \<or> take 2 rest \<noteq> longer k)))"

text \<open>
  \<open>gapOK rest sp es\<close>: the span \<open>sp\<close> at the head of \<open>rest\<close>, of a step that adds no token
  and writes the messages \<open>es\<close>, is one blank or line terminator, or a line comment up to
  the next line terminator or the end, both without a message; or one character that has
  no case in the switch, with the message for it; or a double quote and all the text
  after it, which holds no double quote, with the message of the unterminated literal.
\<close>

definition gapOK :: "string \<Rightarrow> string \<Rightarrow> string list \<Rightarrow> bool" where
  "gapOK rest sp es \<longleftrightarrow>
     (es = [] \<and> sp \<in> {'' '', cr, tab, nl})
   \<or> (es = [] \<and> take 2 rest = ''--'' \<and>
        sp = ''--'' @ takeWhile (\<lambda>c. c \<noteq> CHR 0x0A) (drop 2 rest))
   \<or> (es = [''Unexpected character: '' @ dq @ sp @ dq] \<and> length sp = 1 \<and>
        hd sp \<notin> set recognised)
   \<or> (es = [''Unterminated string literal.''] \<and> sp = rest \<and> take 1 rest = dq \<and>
        CHR 0x22 \<notin> set (drop 1 rest))"

text \<open>
  A segment is the span of source text that one step of the loop consumed, with the tokens
  and the messages of that step.  \<open>segmentOK rest seg\<close>: the span is not empty and is the
  head of \<open>rest\<close>; the step added one token, whose lexeme is the whole span, and no message,
  or it added no token and the span is a gap as above.  At a malformed binary literal the
  step reports that a binary digit is expected; whether it consumes the marker with the
  \<open>0\<close>, and whether it adds a token for what it consumes, is left open (this is the case
  of C5).
\<close>

type_synonym segment = "string \<times> TokenADT Token list \<times> string list"

definition segmentOK :: "string \<Rightarrow> segment \<Rightarrow> bool" where
  "segmentOK rest seg =
     (case seg of (sp, ts, es) \<Rightarrow>
        sp \<noteq> [] \<and> take (length sp) rest = sp \<and>
        (if malformedBinary rest then
           length sp \<le> 2 \<and> es = [''Binary digit expected''] \<and>
           (case ts of [] \<Rightarrow> True | t # r \<Rightarrow> r = [] \<and> lexeme t = sp)
         else
           (case ts of
              [] \<Rightarrow> gapOK rest sp es
            | t # r \<Rightarrow> r = [] \<and> lexeme t = sp \<and> es = [])))"

lemma not_malformedBinary: "c \<noteq> CHR ''0'' \<Longrightarrow> malformedBinary (c # r) = False"
  by (cases r) (simp_all add: malformedBinary_def)

lemma number_current:
  "current (number src s) = current s + length (decimalText (drop (current s) src))"
  by (subst number_eq) (simp add: addToken_def)

lemma slice_head:
  "drop a src = rest \<Longrightarrow> slice src a (a + n) = take n rest"
  by (simp add: slice_def)

lemma scanToken_step:
  assumes lt: "current s < length src" and st: "start s = current s"
  shows "\<exists>ts es. tokens (scanToken src s) = tokens s @ ts \<and>
      errors (scanToken src s) = errors s @ es \<and>
      segmentOK (drop (current s) src) (slice src (current s) (current (scanToken src s)), ts, es) \<and>
      list_all (lexemeOK (drop (current s) src)) ts \<and>
      list_all (\<lambda>t. line t = this_line (scanToken src s)) ts"
proof -
  obtain c r where rest: "drop (current s) src = c # r"
    using lt by (cases "drop (current s) src") simp_all
  note r = drop_Suc_of_Cons [OF rest]
  have c: "charAt src (current s) = [c]" using rest by (simp add: charAt_take_drop)
  have c1: "charAt src (current s + 1) = take 1 r" using r by (simp add: charAt_take_drop)
  have lt1: "current s + 1 < length src \<longleftrightarrow> r \<noteq> []"
    using r by (metis Suc_eq_plus1 drop_eq_Nil not_le)
  have sl: "slice src (current s) (current s + n) = take n (c # r)" for n
    using rest by (rule slice_head)
  have sl1: "slice src (current s) (Suc (current s)) = [c]" using sl [of 1] by simp
  have sl2: "slice src (current s) (Suc (Suc (current s))) = c # take 1 r"
    using sl [of 2] by (simp add: numeral_2_eq_2)
  let ?s1 = "s\<lparr>current := current s + 1\<rparr>"
  show ?thesis
  proof (cases src s rule: scanToken_cases)
    case (single k)
    then show ?thesis
      unfolding rest using c st
      by (auto simp: addToken_def sl1 segmentOK_def lexemeOK_def not_malformedBinary)
  next
    case comment
    let ?w = "takeWhile (\<lambda>c. c \<noteq> CHR 0x0A) (drop 2 (c # r))"
    have d2: "drop (current s + 2) src = drop 2 (c # r)"
      using rest by (metis add.commute drop_drop)
    have cur: "current (scanToken src s) = current s + (2 + length ?w)"
      using comment d2 by (simp add: lineComment_eq)
    have two: "take 2 (c # r) = ''--''"
      using comment c c1 by (cases r) (simp_all add: numeral_2_eq_2)
    have "take (2 + length ?w) (c # r) = take 2 (c # r) @ take (length ?w) (drop 2 (c # r))"
      by (rule take_add)
    then have sp: "slice src (current s) (current (scanToken src s)) = ''--'' @ ?w"
      unfolding cur sl two by (simp only: take_length_takeWhile)
    have "take (length (''--'' @ ?w)) (c # r) = ''--'' @ ?w"
      using \<open>take (2 + length ?w) (c # r) = _\<close> two by (simp add: take_length_takeWhile)
    then show ?thesis
      unfolding rest sp using comment two
      by (simp add: lineComment_eq segmentOK_def gapOK_def not_malformedBinary)
  next
    case minus
    then show ?thesis
      unfolding rest using c c1 lt1 st
      by (cases r) (auto simp: addToken_def sl1 segmentOK_def lexemeOK_def not_malformedBinary
          numeral_2_eq_2)
  next
    case (two a b)
    then show ?thesis
      unfolding rest using c c1 lt1 st
      by (cases r) (auto simp: addToken_def sl2 segmentOK_def lexemeOK_def not_malformedBinary
          numeral_2_eq_2)
  next
    case (one a b)
    then show ?thesis
      unfolding rest using c c1 lt1 st
      by (cases r) (auto simp: addToken_def sl1 segmentOK_def lexemeOK_def not_malformedBinary
          numeral_2_eq_2)
  next
    case blank
    then show ?thesis
      unfolding rest using c
      by (auto simp: sl1 segmentOK_def gapOK_def not_malformedBinary cr_def tab_def)
  next
    case newline
    then show ?thesis
      unfolding rest using c by (auto simp: sl1 segmentOK_def gapOK_def nl_def not_malformedBinary)
  next
    case other
    then show ?thesis
      unfolding rest using c
      by (auto simp: sl1 segmentOK_def gapOK_def console_error_def not_malformedBinary
          recognised_def)
  next
    case digit
    have dc: "digitChar c" using digit(1) c by simp
    have nz: "c \<noteq> CHR ''0''" using digit(2) c by (auto simp: nonzeroDigits_def)
    let ?n = "length (decimalText r)"
    have cur: "current (scanToken src s) = current s + (1 + ?n)"
      using digit(3) r by (simp add: number_current)
    have L: "slice src (current s) (current s + (1 + ?n)) = c # decimalText r"
      unfolding sl by (simp add: decimalText_prefix)
    have nt: "numberText (c # r) = c # decimalText r"
      using nz dc by (cases r) (simp_all add: numberText_def decimalText_Cons)
    have pre: "take (length (c # decimalText r)) (c # r) = c # decimalText r"
      by (simp add: decimalText_prefix)
    have mb: "\<not> malformedBinary (c # r)" using nz by (cases r) (simp_all add: malformedBinary_def)
    show ?thesis
      unfolding rest using digit(3) r st L nt pre mb dc
      by (simp add: number_current number_tokens number_frame segmentOK_def lexemeOK_def)
  next
    case zero
    have z: "c = CHR ''0''" using zero(1) c by simp
    have dc: "digitChar c" using z by (simp add: digitChar_def)
    have d1: "drop (current ?s1) src = r" using r by simp
    show ?thesis
    proof (cases "malformedBinary (c # r)")
      case True
      then obtain m r2 where r2: "r = m # r2" and m: "lowerChar m = CHR ''b''"
        and nb: "\<not> (r2 \<noteq> [] \<and> binaryChar (hd r2))"
        by (cases r) (auto simp: malformedBinary_def)
      have eq: "scanToken src s =
          addToken src (number_t (Number_js (slice src (start ?s1) (current ?s1))) binary)
            (console_error ''Binary digit expected'' ?s1)"
        using zero(2) d1 r2 m nb by (auto simp: leadingZeroNumber_eq)
      show ?thesis
        unfolding rest eq using True st dc
        by (simp add: addToken_def console_error_def sl1 segmentOK_def lexemeOK_def)
    next
      case False
      show ?thesis
      proof (cases "\<exists>m r2. r = m # r2 \<and> lowerChar m = CHR ''b''")
        case True
        then obtain m r2 where r2: "r = m # r2" and m: "lowerChar m = CHR ''b''" by blast
        with False z have b: "r2 \<noteq> []" "binaryChar (hd r2)"
          by (auto simp: malformedBinary_def)
        let ?w = "takeWhile binaryChar r2"
        have nt: "numberText (c # r) = c # m # ?w" using z r2 m by (simp add: numberText_def)
        have eq: "scanToken src s =
            addToken src (number_t (Number_js (slice src (start ?s1)
                (current ?s1 + 1 + length ?w))) binary)
              (?s1\<lparr>current := current ?s1 + 1 + length ?w\<rparr>)"
          using zero(2) d1 r2 m b by (auto simp: leadingZeroNumber_eq)
        have "slice src (current s) (current s + (2 + length ?w)) = c # m # ?w"
          unfolding sl using r2 by (simp add: numeral_2_eq_2 take_length_takeWhile)
        then have L: "slice src (current s) (Suc (Suc (current s + length ?w))) = c # m # ?w"
          by simp
        have pre: "take (length (c # m # ?w)) (c # r) = c # m # ?w"
          using r2 by (simp add: take_length_takeWhile)
        show ?thesis
          unfolding rest eq using False st nt dc L pre
          by (simp add: addToken_def segmentOK_def lexemeOK_def)
      next
        case nob: False
        have eq: "scanToken src s = number src ?s1"
          using zero(2) d1 nob by (cases r) (auto simp: leadingZeroNumber_eq)
        let ?n = "length (decimalText r)"
        have L: "slice src (current s) (current s + (1 + ?n)) = c # decimalText r"
          unfolding sl by (simp add: decimalText_prefix)
        have nt: "numberText (c # r) = c # decimalText r"
          using nob dc by (cases r) (auto simp: numberText_def decimalText_Cons)
        have pre: "take (length (c # decimalText r)) (c # r) = c # decimalText r"
          by (simp add: decimalText_prefix)
        show ?thesis
          unfolding rest eq using r st L nt pre False dc
          by (simp add: number_current number_tokens number_frame segmentOK_def lexemeOK_def)
      qed
    qed
  next
    case quote
    have q: "c = CHR 0x22" using quote(1) c by (simp add: dq_def)
    have d1: "drop (current ?s1) src = r" using r by simp
    have le: "current ?s1 \<le> length src" using lt by simp
    let ?w = "takeWhile (\<lambda>c. c \<noteq> CHR 0x22) r"
    show ?thesis
    proof (cases "CHR 0x22 \<in> set r")
      case False
      have eq: "scanToken src s = console_error ''Unterminated string literal.''
          (?s1\<lparr>current := length src, this_line := this_line ?s1 + cnl r\<rparr>)"
        using quote(2) False d1 lt by (simp add: string_eq Let_def)
      have "length (c # r) = length src - current s"
        using rest by (metis length_drop)
      then have "slice src (current s) (length src) = c # r"
        unfolding slice_def rest by simp
      then show ?thesis
        unfolding rest eq using False q
        by (simp add: console_error_def segmentOK_def gapOK_def dq_def not_malformedBinary)
    next
      case True
      have eq: "scanToken src s =
          addToken src (string_t (slice src (start ?s1 + 1) (current ?s1 + length ?w)))
            (?s1\<lparr>current := current ?s1 + length ?w + 1, this_line := this_line ?s1 + cnl ?w\<rparr>)"
        using quote(2) True d1 lt by (simp add: string_eq Let_def)
      have "dropWhile (\<lambda>c. c \<noteq> CHR 0x22) r \<noteq> []" using True by (simp add: dropWhile_eq_Nil_conv)
      then obtain r' where dw: "dropWhile (\<lambda>c. c \<noteq> CHR 0x22) r = CHR 0x22 # r'"
        using hd_dropWhile [of "\<lambda>c. c \<noteq> CHR 0x22" r]
        by (cases "dropWhile (\<lambda>c. c \<noteq> CHR 0x22) r") auto
      have rr: "r = ?w @ CHR 0x22 # r'"
        using takeWhile_dropWhile_id [of "\<lambda>c. c \<noteq> CHR 0x22" r] dw by simp
      have t1: "take (Suc (length ?w)) r = ?w @ [CHR 0x22]"
        by (subst (2) rr) simp
      have lit: "slice src (Suc (current s)) (Suc (current s) + length ?w) = ?w"
        using slice_head [OF r, of "length ?w"] by (simp add: take_length_takeWhile)
      have "slice src (current s) (current s + (2 + length ?w)) = c # ?w @ [CHR 0x22]"
        unfolding sl using t1 by (simp add: numeral_2_eq_2)
      then have L: "slice src (current s) (Suc (Suc (current s + length ?w))) = c # ?w @ [CHR 0x22]"
        by simp
      have pre: "take (Suc (Suc (length ?w))) (c # r) = c # ?w @ [CHR 0x22]"
        using t1 by simp
      have nq: "CHR 0x22 \<notin> set ?w" by (auto dest: set_takeWhileD)
      have mb: "\<not> malformedBinary (c # r)" using q by (cases r) (simp_all add: malformedBinary_def)
      show ?thesis
        unfolding rest eq using st q lit L pre nq mb
        by (simp add: addToken_def segmentOK_def lexemeOK_def dq_def)
    qed
  qed
qed

section \<open>The scan, segment by segment\<close>

text \<open>\<open>segmentsOK rest segs\<close>: the segments follow one another from the head of \<open>rest\<close> to
  its end, each well formed at its place.\<close>

fun segmentsOK :: "string \<Rightarrow> segment list \<Rightarrow> bool" where
  "segmentsOK rest [] = (rest = [])"
| "segmentsOK rest (seg # segs) =
     (segmentOK rest seg \<and> segmentsOK (drop (length (fst seg)) rest) segs)"

text \<open>\<open>lexedOK rest segs\<close>: the lexeme of every token of the segments is the text that the
  token takes at the place of its segment.\<close>

fun lexedOK :: "string \<Rightarrow> segment list \<Rightarrow> bool" where
  "lexedOK rest [] = True"
| "lexedOK rest (seg # segs) =
     (list_all (lexemeOK rest) (fst (snd seg)) \<and> lexedOK (drop (length (fst seg)) rest) segs)"

text \<open>\<open>linedOK n segs\<close>, where \<open>n\<close> line terminators precede the first segment: the line of
  every token is the number of line terminators of the source up to the end of its
  segment, that is those before its first character and those inside its lexeme.\<close>

fun linedOK :: "nat \<Rightarrow> segment list \<Rightarrow> bool" where
  "linedOK n [] = True"
| "linedOK n (seg # segs) =
     (list_all (\<lambda>t. line t = n + cnl (fst seg)) (fst (snd seg)) \<and>
      linedOK (n + cnl (fst seg)) segs)"

lemma segmentsOK_concat: "segmentsOK rest segs \<Longrightarrow> concat (map fst segs) = rest"
proof (induction segs arbitrary: rest)
  case Nil
  then show ?case by simp
next
  case (Cons seg segs)
  then have "take (length (fst seg)) rest = fst seg"
    and "concat (map fst segs) = drop (length (fst seg)) rest"
    by (auto simp: segmentOK_def split: prod.splits)
  then show ?case using append_take_drop_id [of "length (fst seg)" rest] by simp
qed

lemma slice_length: "a \<le> b \<Longrightarrow> b \<le> length src \<Longrightarrow> length (slice src a b) = b - a"
  by (simp add: slice_def)

lemma cnl_take_split:
  "a \<le> b \<Longrightarrow> cnl (take b src) = cnl (take a src) + cnl (slice src a b)"
proof -
  assume "a \<le> b"
  then have "take b src = take a src @ slice src a b"
    using take_add [of a "b - a" src] by (simp add: slice_def)
  then show ?thesis by (simp add: cnl_append)
qed

lemma scanLoop_segments:
  "scanInv src s \<Longrightarrow>
   \<exists>segs. segmentsOK (drop (current s) src) segs \<and>
     lexedOK (drop (current s) src) segs \<and>
     linedOK (this_line s) segs \<and>
     tokens (scanLoop src s) = tokens s @ concat (map (fst \<circ> snd) segs) \<and>
     errors (scanLoop src s) = errors s @ concat (map (snd \<circ> snd) segs)"
proof (induction src s rule: scanLoop.induct)
  case (1 src s)
  show ?case
  proof (cases "reachedEOF src s")
    case True
    then have "scanLoop src s = s" "drop (current s) src = []"
      by (simp_all add: scanLoop.simps reachedEOF_iff)
    then show ?thesis by (intro exI [of _ "[]"]) simp
  next
    case False
    let ?s = "s\<lparr>start := current s\<rparr>"
    let ?s' = "scanToken src ?s"
    let ?rest = "drop (current s) src"
    have lt: "current s < length src" using False by (simp add: reachedEOF_iff)
    have inv': "scanInv src ?s'"
      using scanToken_scanInv [of src ?s] 1(2) lt by simp
    have gt: "current s < current ?s'" using scanToken_current_gt [of ?s src] by simp
    have le: "current ?s' \<le> length src" using inv' by (simp add: scanInv_def)
    from 1(1) [OF False inv'] obtain segs where
      segs: "segmentsOK (drop (current ?s') src) segs"
        "lexedOK (drop (current ?s') src) segs"
        "linedOK (this_line ?s') segs"
        "tokens (scanLoop src ?s') = tokens ?s' @ concat (map (fst \<circ> snd) segs)"
        "errors (scanLoop src ?s') = errors ?s' @ concat (map (snd \<circ> snd) segs)"
      by blast
    have loop: "scanLoop src s = scanLoop src ?s'"
      using False by (simp add: scanLoop.simps [of src s])
    let ?sp = "slice src (current s) (current ?s')"
    from scanToken_step [of ?s src] lt obtain ts es where
      step: "tokens ?s' = tokens s @ ts" "errors ?s' = errors s @ es"
        "segmentOK ?rest (?sp, ts, es)" "list_all (lexemeOK ?rest) ts"
        "list_all (\<lambda>t. line t = this_line ?s') ts"
      by auto
    have len: "length ?sp = current ?s' - current s"
      using gt le by (simp add: slice_length)
    have dr: "drop (length ?sp) ?rest = drop (current ?s') src"
      using gt by (simp add: len)
    have ln: "this_line ?s' = this_line s + cnl ?sp"
      using inv' 1(2) gt cnl_take_split [of "current s" "current ?s'" src]
      by (simp add: scanInv_def)
    let ?segs = "(?sp, ts, es) # segs"
    have "segmentsOK ?rest ?segs" using step(3) segs(1) dr by simp
    moreover have "lexedOK ?rest ?segs" using step(4) segs(2) dr by simp
    moreover have "linedOK (this_line s) ?segs" using step(5) segs(3) ln by simp
    moreover have "tokens (scanLoop src s) = tokens s @ concat (map (fst \<circ> snd) ?segs)"
      unfolding loop segs(4) step(1) by simp
    moreover have "errors (scanLoop src s) = errors s @ concat (map (snd \<circ> snd) ?segs)"
      unfolding loop segs(5) step(2) by simp
    ultimately show ?thesis by blast
  qed
qed

lemma scan_segments:
  "\<exists>segs. segmentsOK src segs \<and> lexedOK src segs \<and> linedOK 0 segs \<and>
     scanTokens src =
       concat (map (fst \<circ> snd) segs) @ [\<lparr>adt = eof, lexeme = [], line = cnl src\<rparr>] \<and>
     diagnostics src = concat (map (snd \<circ> snd) segs)"
proof -
  have i: "scanInv src (init :: TokenADT Tokenizer)" by (simp add: scanInv_def init_def cnl_def)
  have "this_line (scanLoop src init) = cnl src"
    using scanLoop_scanInv [OF i] scanLoop_current [OF i] by (simp add: scanInv_def)
  moreover have "diagnostics src = errors (scanLoop src init)"
    by (simp add: diagnostics_def run_def Let_def)
  ultimately show ?thesis
    using scanLoop_segments [OF i] by (simp add: scanTokens_snoc) (simp add: init_def)
qed



text \<open>The segments of a scan that meets every kind of segment.\<close>

lemma segments_example:
  "segmentsOK (''a -- x'' @ nl @ ''0b2 12.5e-1.'' @ dq @ ''s'')
     [(''a'', [], [''Unexpected character: '' @ dq @ ''a'' @ dq]),
      ('' '', [], []),
      (''-- x'', [], []),
      (nl, [], []),
      (''0'', [\<lparr>adt = number_t (Num 0) binary, lexeme = ''0'', line = 1\<rparr>],
         [''Binary digit expected'']),
      (''b'', [], [''Unexpected character: '' @ dq @ ''b'' @ dq]),
      (''2'', [\<lparr>adt = number_t (Num 2) decimal, lexeme = ''2'', line = 1\<rparr>], []),
      ('' '', [], []),
      (''12.5e-1'',
         [\<lparr>adt = number_t (Num (5 / 4)) exponential, lexeme = ''12.5e-1'', line = 1\<rparr>], []),
      (''.'', [\<lparr>adt = dot, lexeme = ''.'', line = 1\<rparr>], []),
      (dq @ ''s'', [], [''Unterminated string literal.''])]"
  "lexedOK (''1<=2'' @ dq @ ''s'' @ dq)
     [(''1'', [\<lparr>adt = number_t (Num 1) decimal, lexeme = ''1'', line = 0\<rparr>], []),
      (''<='', [\<lparr>adt = lessEqual, lexeme = ''<='', line = 0\<rparr>], []),
      (''2'', [\<lparr>adt = number_t (Num 2) decimal, lexeme = ''2'', line = 0\<rparr>], []),
      (dq @ ''s'' @ dq, [\<lparr>adt = string_t ''s'', lexeme = dq @ ''s'' @ dq, line = 0\<rparr>], [])]"
  "\<not> lexedOK ''12.5e3''
     [(''12'', [\<lparr>adt = number_t (Num 12) decimal, lexeme = ''12'', line = 0\<rparr>], [])]"
  "\<not> lexedOK ''<=''
     [(''<'', [\<lparr>adt = less_t, lexeme = ''<'', line = 0\<rparr>], [])]"
  "\<not> segmentsOK ''1'' [(''1'', [], [''error''])]"
  "\<not> linedOK 0
     [(''--1'', [], []), (nl, [], []),
      (''1'', [\<lparr>adt = number_t (Num 1) decimal, lexeme = ''1'', line = 0\<rparr>], [])]"
  by code_simp+

text \<open>
  C3, as the code has it.  The source is the concatenation, in order, of the spans of the
  scan steps, none of them empty.  The returned tokens are the tokens of these spans in
  order, followed by the end-of-input token, and the lexeme of a token is the whole span of
  its step (for a string literal with both quotes), the text that the token takes at that
  place: lexemes neither overlap nor leave a gap inside a step.  A span without a token is
  a blank, a line terminator or a line comment up to the end of its line, for which
  nothing is reported, or else one character that has no case in the switch or an opening
  quote with the rest of an input that holds no closing quote, and for these two the scan
  reports the error with its message.  (The step at a malformed binary literal, the case
  of C5, reports its error; nothing else is said of it.)
\<close>

theorem scanTokens_segments:
  "\<exists>segs. concat (map fst segs) = src \<and> segmentsOK src segs \<and> lexedOK src segs \<and>
     scanTokens src =
       concat (map (fst \<circ> snd) segs) @ [\<lparr>adt = eof, lexeme = [], line = cnl src\<rparr>] \<and>
     diagnostics src = concat (map (snd \<circ> snd) segs)"
  using scan_segments [of src] segmentsOK_concat by blast

theorem scanTokens_segments_witness:
  "\<exists>segs. concat (map fst segs) = ''a 1'' \<and> segmentsOK ''a 1'' segs \<and> lexedOK ''a 1'' segs \<and>
     scanTokens ''a 1'' =
       concat (map (fst \<circ> snd) segs) @ [\<lparr>adt = eof, lexeme = [], line = cnl ''a 1''\<rparr>] \<and>
     diagnostics ''a 1'' = concat (map (snd \<circ> snd) segs)"
  using scanTokens_segments [of "''a 1''"] .

text \<open>The claim as stated fails on \<open>a1\<close>: the character \<open>a\<close> is in no lexeme and
  is neither a blank nor part of a comment; the scan reports it and goes on.\<close>

theorem unexpected_character_counterexample:
  "scanTokens ''a1'' =
     [\<lparr>adt = number_t (Num 1) decimal, lexeme = ''1'', line = 0\<rparr>,
      \<lparr>adt = eof, lexeme = [], line = 0\<rparr>] \<and>
   concat (map lexeme (scanTokens ''a1'')) = ''1'' \<and>
   \<not> skipped ''a'' \<and>
   diagnostics ''a1'' = [''Unexpected character: '' @ dq @ ''a'' @ dq]"
  by (intro conjI; code_simp)

text \<open>
  C7, as the code has it.  The line of a token is the value of the line counter when the
  token is emitted, after its last character.  With the source cut into the spans of the
  scan steps, each token in the span of its step, the line of every token is the number
  of line terminators of the source before its first character plus the number of those
  inside its lexeme, and the line of the end-of-input token is the number of line
  terminators of the source.  So a token without a line terminator inside carries the
  line of its first character, and a string literal that spans several lines carries the
  line of its closing quote.
\<close>

theorem scanTokens_lined:
  "\<exists>segs. segmentsOK src segs \<and> lexedOK src segs \<and> linedOK 0 segs \<and>
     scanTokens src =
       concat (map (fst \<circ> snd) segs) @ [\<lparr>adt = eof, lexeme = [], line = cnl src\<rparr>] \<and>
     diagnostics src = concat (map (snd \<circ> snd) segs)"
  using scan_segments [of src] by blast

theorem scanTokens_lined_witness:
  "\<exists>segs. segmentsOK (''--1'' @ nl @ ''1'') segs \<and> lexedOK (''--1'' @ nl @ ''1'') segs \<and>
     linedOK 0 segs \<and>
     scanTokens (''--1'' @ nl @ ''1'') =
       concat (map (fst \<circ> snd) segs) @
       [\<lparr>adt = eof, lexeme = [], line = cnl (''--1'' @ nl @ ''1'')\<rparr>] \<and>
     diagnostics (''--1'' @ nl @ ''1'') = concat (map (snd \<circ> snd) segs)"
  using scanTokens_lined [of "''--1'' @ nl @ ''1''"] .

text \<open>The claim as stated fails on a string literal of two lines: its first character,
  the opening quote at index 0, is on line 0, and the token carries line 1.\<close>

theorem string_line_counterexample:
  "scanTokens (dq @ ''a'' @ nl @ ''b'' @ dq) =
     [\<lparr>adt = string_t (''a'' @ nl @ ''b''), lexeme = dq @ ''a'' @ nl @ ''b'' @ dq, line = 1\<rparr>,
      \<lparr>adt = eof, lexeme = [], line = 1\<rparr>] \<and>
   cnl (take 0 (dq @ ''a'' @ nl @ ''b'' @ dq)) = 0"
  by (intro conjI; code_simp)

text \<open>
  C8, as the code has it.  With the source cut into the spans of the scan steps, the lexeme
  of every returned token is the source text from the first to the last character that
  the token consumed, and this text is fixed by the source at that place: for a number,
  which begins with a digit, the maximal text of a number, with the radix prefix \<open>0b\<close>,
  the point and the digits after it, and the exponent marker with its sign and digits
  (a malformed binary literal apart);
  for a string literal the text from the opening quote to the next quote, both quotes
  included (only the payload leaves them out); for a punctuation or operator token its
  symbol, the longer one where it is there; and nothing for the end-of-input token.
\<close>

theorem scanTokens_lexemes:
  "\<exists>segs. segmentsOK src segs \<and> lexedOK src segs \<and>
     scanTokens src =
       concat (map (fst \<circ> snd) segs) @ [\<lparr>adt = eof, lexeme = [], line = cnl src\<rparr>] \<and>
     diagnostics src = concat (map (snd \<circ> snd) segs)"
  using scan_segments [of src] by blast

theorem scanTokens_lexemes_witness:
  "\<exists>segs. segmentsOK ''0b101+12.5e-1'' segs \<and> lexedOK ''0b101+12.5e-1'' segs \<and>
     scanTokens ''0b101+12.5e-1'' =
       concat (map (fst \<circ> snd) segs) @
       [\<lparr>adt = eof, lexeme = [], line = cnl ''0b101+12.5e-1''\<rparr>] \<and>
     diagnostics ''0b101+12.5e-1'' = concat (map (snd \<circ> snd) segs)"
  using scanTokens_lexemes [of "''0b101+12.5e-1''"] .

text \<open>The claim as stated fails on \<open>"abc"\<close>: the lexeme keeps the two quotes.\<close>

theorem string_lexeme_counterexample:
  "scanTokens (dq @ ''abc'' @ dq) =
     [\<lparr>adt = string_t ''abc'', lexeme = dq @ ''abc'' @ dq, line = 0\<rparr>,
      \<lparr>adt = eof, lexeme = [], line = 0\<rparr>]"
  by code_simp

section \<open>Unterminated string literals\<close>

lemma scanLoop_this_line: "this_line (scanLoop src init) = cnl src"
proof -
  have i: "scanInv src (init :: TokenADT Tokenizer)" by (simp add: scanInv_def init_def cnl_def)
  show ?thesis
    using scanLoop_scanInv [OF i] scanLoop_current [OF i] by (simp add: scanInv_def)
qed

lemma string_unterminated:
  assumes "CHR 0x22 \<notin> set (drop (current s) src)" and "current s \<le> length src"
  shows "tokens (string src s) = tokens s"
    and "errors (string src s) = errors s @ [''Unterminated string literal.'']"
    and "current (string src s) = length src"
proof -
  have "takeWhile (\<lambda>c. c \<noteq> CHR 0x22) (drop (current s) src) = drop (current s) src"
    using assms(1) by (intro takeWhile_eq_all_conv [THEN iffD2]) auto
  then have "length (takeWhile (\<lambda>c. c \<noteq> CHR 0x22) (drop (current s) src)) = length src - current s"
    by (metis length_drop)
  then have "current (stringBody src s) = length src"
    using assms(2) by (simp add: stringBody_eq)
  then show "tokens (string src s) = tokens s"
    and "errors (string src s) = errors s @ [''Unterminated string literal.'']"
    and "current (string src s) = length src"
    by (simp_all add: string_def Let_def reachedEOF_iff console_error_def stringBody_eq)
qed

text \<open>
  C6, as the code has it.  The scanner knows no escape: a string literal ends at the next
  double quote, whatever precedes it.  When the scan is at a double quote (a string literal
  is opened there) and no double quote follows before the end of the input, the scan
  reports exactly one more error, \<open>Unterminated string literal.\<close>, emits no token for the
  literal nor anything after it, and the returned sequence is the tokens emitted before,
  followed by the end-of-input token.
\<close>

theorem unterminated_string:
  assumes "reaches src s" and "charAt src (current s) = dq"
    and "CHR 0x22 \<notin> set (drop (Suc (current s)) src)"
  shows "scanTokens src = tokens s @ [\<lparr>adt = eof, lexeme = [], line = cnl src\<rparr>] \<and>
         diagnostics src = errors s @ [''Unterminated string literal.'']"
proof -
  let ?s1 = "s\<lparr>start := current s, current := current s + 1\<rparr>"
  let ?s' = "scanToken src (s\<lparr>start := current s\<rparr>)"
  have lt: "current s < length src" using assms(2) by (simp add: charAt_def dq_def split: if_splits)
  have "fst (advance src 1 (s\<lparr>start := current s\<rparr>)) = dq"
    using assms(2) by (simp add: advance_def)
  then have st: "?s' = string src ?s1"
    by (simp add: scanToken_def split_beta dq_def nl_def cr_def tab_def nonzeroDigits_def)
  have u: "tokens ?s' = tokens s" "errors ?s' = errors s @ [''Unterminated string literal.'']"
    "current ?s' = length src"
    using string_unterminated [of ?s1 src] assms(3) lt by (simp_all add: st)
  have "scanLoop src ?s' = ?s'" using u(3) by (simp add: scanLoop.simps reachedEOF_iff)
  then have "scanLoop src s = ?s'"
    using lt scanLoop.simps [of src s] by (simp add: reachedEOF_iff)
  then have "scanLoop src init = ?s'" using reaches_scanLoop [OF assms(1)] by simp
  then have "tokens (scanLoop src init) = tokens s"
    and "errors (scanLoop src init) = errors s @ [''Unterminated string literal.'']"
    using u by simp_all
  then show ?thesis
    by (simp add: scanTokens_snoc scanLoop_this_line diagnostics_def run_def Let_def)
qed

theorem unterminated_string_witness:
  "scanTokens (dq @ ''abc'') = [\<lparr>adt = eof, lexeme = [], line = 0\<rparr>] \<and>
   diagnostics (dq @ ''abc'') = [''Unterminated string literal.'']"
  using unterminated_string [OF reaches_init, of "dq @ ''abc''"]
  by (simp add: init_def charAt_def dq_def cnl_def)

text \<open>The spec's reading of an escape: a double quote that follows a backslash does not
  close the literal.  \<open>closesString body\<close>: the text after the opening quote contains an
  unescaped double quote.\<close>

fun closesString :: "string \<Rightarrow> bool" where
  "closesString [] = False"
| "closesString [c] = (c = CHR 0x22)"
| "closesString (c # d # r) =
     (if c = CHR 0x22 then True
      else if c = CHR 0x5C then closesString r
      else closesString (d # r))"

text \<open>The claim as stated fails on the four characters \<open>"a\"\<close>: the only later quote is
  escaped, and the scan returns a string token and reports nothing.\<close>

theorem escaped_quote_counterexample:
  "\<not> closesString (''a'' @ [CHR 0x5C] @ dq) \<and>
   scanTokens (dq @ ''a'' @ [CHR 0x5C] @ dq) =
     [\<lparr>adt = string_t (''a'' @ [CHR 0x5C]), lexeme = dq @ ''a'' @ [CHR 0x5C] @ dq, line = 0\<rparr>,
      \<lparr>adt = eof, lexeme = [], line = 0\<rparr>] \<and>
   diagnostics (dq @ ''a'' @ [CHR 0x5C] @ dq) = []"
  by (intro conjI; code_simp)

section \<open>The second version on the inputs that separate it from the spec\<close>

lemma c_blockComment_returns:
  assumes "c_blockComment src s = Some y"
  shows "current s < length src"
proof (rule c_blockComment.raw_induct [where P = "\<lambda>src s y. current s < length src", OF _ assms])
  fix f :: "string \<Rightarrow> 'a Tokenizer \<Rightarrow> 'a Tokenizer option" and src s y
  assume IH: "\<And>src s y. f src s = Some y \<Longrightarrow> current s < length src"
    and body: "(let (m, s1) = c_match src ''-'' False s in
                if \<not> m \<or> peek src s1 \<noteq> ''}'' then f src (snd (advance src 1 s1))
                else Some s1) = Some y"
  show "current s < length src"
  proof (rule ccontr)
    assume "\<not> current s < length src"
    then have eof: "reachedEOF src s" by (simp add: reachedEOF_iff)
    then have "f src (snd (advance src 1 s)) = Some y"
      using body by (simp add: c_match_def)
    then have "current (snd (advance src 1 s)) < length src" by (rule IH)
    with \<open>\<not> current s < length src\<close> show False by simp
  qed
qed

lemma c_blockComment_diverges: "length src \<le> current s \<Longrightarrow> c_blockComment src s = None"
  using c_blockComment_returns [of src s] by (cases "c_blockComment src s") auto

text \<open>
  C2 fails on the second version.  On the two characters \<open>{-\<close>, a block comment that is
  never closed, the loop of the block comment has no test for the end of the input:
  \<open>match\<close> fails there, so the loop goes on advancing, and \<open>scanTokens\<close> does not return.
\<close>

theorem c_scanTokens_unclosed_block_comment: "c_scanTokens ''{-'' = None"
proof -
  have "c_scanToken ''{-'' (init\<lparr>start := current init\<rparr>) = None"
    by (simp add: c_scanToken_def init_def advance_def charAt_def c_match_def reachedEOF_iff
        c_blockComment_diverges)
  then have "c_scanLoop ''{-'' init = None"
    by (subst c_scanLoop.simps) (simp add: reachedEOF_iff init_def)
  then show ?thesis by (simp add: c_scanTokens_def c_run_def)
qed

lemma c_run_hex:
  "c_run ''0x1A'' = Some (Returns
    \<lparr>tokens =
       [\<lparr>adt = c_number_t (NumberLit (Num 26)) hexadecimal False, lexeme = ''0x1A'', line = 0\<rparr>,
        \<lparr>adt = c_eof, lexeme = [], line = 0\<rparr>],
       start = 0, current = 4, this_line = 0, errors = []\<rparr>)"
  by code_simp

text \<open>
  C4 fails on both versions.  The first version reads a radix marker \<open>b\<close> only: on
  \<open>0x1A\<close> it returns the decimal tokens \<open>0\<close> and \<open>1\<close> and reports \<open>x\<close> and \<open>A\<close> as
  unexpected.  The second version reads \<open>0x1A\<close> as one hexadecimal token of value 26, but
  \<open>match\<close> has already consumed the marker when \<open>peekNext\<close> is tested, so the test reads
  the second character after the marker: the literal \<open>0x1\<close> is reported as an error and
  split into the tokens \<open>0x\<close> (not a number) and \<open>1\<close>, and in \<open>0xZ1\<close> the \<open>Z\<close> is read as
  a digit.
\<close>

theorem radix_literal_evaluation:
  "scanTokens ''0x1A'' =
     [\<lparr>adt = number_t (Num 0) decimal, lexeme = ''0'', line = 0\<rparr>,
      \<lparr>adt = number_t (Num 1) decimal, lexeme = ''1'', line = 0\<rparr>,
      \<lparr>adt = eof, lexeme = [], line = 0\<rparr>] \<and>
   diagnostics ''0x1A'' =
     [''Unexpected character: '' @ dq @ ''x'' @ dq, ''Unexpected character: '' @ dq @ ''A'' @ dq] \<and>
   c_scanTokens ''0x1A'' = Some (Returns
     [\<lparr>adt = c_number_t (NumberLit (Num 26)) hexadecimal False, lexeme = ''0x1A'', line = 0\<rparr>,
      \<lparr>adt = c_eof, lexeme = [], line = 0\<rparr>]) \<and>
   c_scanTokens ''0x1'' = Some (Returns
     [\<lparr>adt = c_number_t (NumberLit NaN) hexadecimal False, lexeme = ''0x'', line = 0\<rparr>,
      \<lparr>adt = c_number_t (NumberLit (Num 1)) decimal False, lexeme = ''1'', line = 0\<rparr>,
      \<lparr>adt = c_eof, lexeme = [], line = 0\<rparr>]) \<and>
   c_diagnostics ''0x1'' = Some (Returns [''Hexadecimal digit expected'']) \<and>
   c_scanTokens ''0xZ1'' = Some (Returns
     [\<lparr>adt = c_number_t (NumberLit NaN) hexadecimal False, lexeme = ''0xZ1'', line = 0\<rparr>,
      \<lparr>adt = c_eof, lexeme = [], line = 0\<rparr>])"
  by (intro conjI; code_simp)

text \<open>
  C5 fails on both versions: after the error is reported, \<open>leadingZeroNumber\<close> goes on to
  its last lines and adds a number token (\<open>string\<close>, on its error, returns).  On \<open>0b2\<close>
  the first version returns the tokens \<open>0\<close>, tagged binary, and \<open>2\<close>, and reports two
  errors, the second for the marker \<open>b\<close>, which it has not consumed; the second version
  returns the tokens \<open>0b\<close>, tagged binary and not a number, and \<open>2\<close>, with one error.
\<close>

theorem invalid_binary_evaluation:
  "scanTokens ''0b2'' =
     [\<lparr>adt = number_t (Num 0) binary, lexeme = ''0'', line = 0\<rparr>,
      \<lparr>adt = number_t (Num 2) decimal, lexeme = ''2'', line = 0\<rparr>,
      \<lparr>adt = eof, lexeme = [], line = 0\<rparr>] \<and>
   diagnostics ''0b2'' =
     [''Binary digit expected'', ''Unexpected character: '' @ dq @ ''b'' @ dq] \<and>
   c_scanTokens ''0b2'' = Some (Returns
     [\<lparr>adt = c_number_t (NumberLit NaN) binary False, lexeme = ''0b'', line = 0\<rparr>,
      \<lparr>adt = c_number_t (NumberLit (Num 2)) decimal False, lexeme = ''2'', line = 0\<rparr>,
      \<lparr>adt = c_eof, lexeme = [], line = 0\<rparr>]) \<and>
   c_diagnostics ''0b2'' = Some (Returns [''Binary digit expected''])"
  by (intro conjI; code_simp)

section \<open>The decimal point of a number\<close>

text \<open>In the first version \<open>number\<close> looks at the point with \<open>peek\<close> and at the character
  after it with \<open>peekNext\<close> before it consumes anything: a point that no digit follows
  ends the number and is left where it is.\<close>

lemma number_trailing_dot:
  assumes "peek src (digits src s) = ''.''" and "\<not> isDigit (peekNext src 1 (digits src s))"
  shows "current (number src s) = current (digits src s)"
  using assms by (simp add: number_def Let_def addToken_def toLowerCase_def lowerChar_def)

lemma number_fraction:
  assumes "peek src (digits src s) = ''.''" and "isDigit (peekNext src 1 (digits src s))"
  shows "current (digits src s) + 2 \<le> current (number src s)"
proof -
  let ?s1 = "digits src s"
  let ?w = "takeWhile digitChar (drop (Suc (current ?s1)) src)"
  have "peekNext src 1 ?s1 = charAt src (current ?s1 + 1)"
    using assms(2) by (intro peekNext_charAt) (auto simp: isDigit_def)
  then have "isDigit (take 1 (drop (Suc (current ?s1)) src))"
    using assms(2) by (simp add: charAt_take_drop)
  then have "?w \<noteq> []"
    by (cases "drop (Suc (current ?s1)) src") (simp_all add: isDigit_def)
  then have "1 \<le> length ?w" by (cases ?w) simp_all
  moreover have "current ?s1 + 1 + length ?w \<le> current (number src s)"
    using assms by (simp add: number_def Let_def addToken_def digits_eq [of src "_\<lparr>current := _\<rparr>"])
  ultimately show ?thesis by simp
qed

text \<open>
  C9 holds on the first version (the two lemmas above) and fails on the second, where
  \<open>this.match(".") && this.isDigit(this.peekNext())\<close> consumes the point before the digit
  is looked for: on \<open>1.\<close> the first version returns the number \<open>1\<close> and the token of
  the point, the second one number token whose lexeme is \<open>1.\<close>.
\<close>

theorem trailing_dot_evaluation:
  "scanTokens ''1.'' =
     [\<lparr>adt = number_t (Num 1) decimal, lexeme = ''1'', line = 0\<rparr>,
      \<lparr>adt = dot, lexeme = ''.'', line = 0\<rparr>,
      \<lparr>adt = eof, lexeme = [], line = 0\<rparr>] \<and>
   c_scanTokens ''1.'' = Some (Returns
     [\<lparr>adt = c_number_t (NumberLit (Num 1)) decimal False, lexeme = ''1.'', line = 0\<rparr>,
      \<lparr>adt = c_eof, lexeme = [], line = 0\<rparr>])"
  by (intro conjI; code_simp)

end
